theory Spec2Isabelle
  imports Main
begin

section \<open>The pit-stop actor model (Concurrency/ActorModel/actor_model.py)\<close>

subsection \<open>Data\<close>

text \<open>The enum \<open>Position\<close>; iterating over it yields the members in definition order.\<close>

datatype Position = FRONT_LEFT | FRONT_RIGHT | REAR_LEFT | REAR_RIGHT

definition all_positions :: "Position list" where
  "all_positions = [FRONT_LEFT, FRONT_RIGHT, REAR_LEFT, REAR_RIGHT]"

fun position_value :: "Position \<Rightarrow> string" where
  "position_value FRONT_LEFT = ''Front Left''"
| "position_value FRONT_RIGHT = ''Front Right''"
| "position_value REAR_LEFT = ''Rear Left''"
| "position_value REAR_RIGHT = ''Rear Right''"

datatype MessageType = CHANGE_TIRE | TIRE_CHANGED | STOP

text \<open>
  A mailbox is an \<open>asyncio.Queue\<close>. The program creates one for the engineer and one
  per crew member; a reference to a queue is the name of its owner.
\<close>

datatype mailbox_id = EngineerMailbox | CrewMailbox Position

text \<open>
  The dataclass \<open>Message\<close>. The program builds its stop messages with position \<open>None\<close>,
  and the field \<open>sender_mailbox\<close> has the default \<open>None\<close>, so both are optional.
\<close>

record Message =
  msg_type :: MessageType
  position :: "Position option"
  sender_mailbox :: "mailbox_id option"

text \<open>The constructor call with two arguments: \<open>sender_mailbox\<close> takes its default.\<close>

definition Message2 :: "MessageType \<Rightarrow> Position option \<Rightarrow> Message" where
  "Message2 t p = \<lparr>msg_type = t, position = p, sender_mailbox = None\<rparr>"

definition Message3 :: "MessageType \<Rightarrow> Position option \<Rightarrow> mailbox_id option \<Rightarrow> Message" where
  "Message3 t p q = \<lparr>msg_type = t, position = p, sender_mailbox = q\<rparr>"

text \<open>
  The exceptions the two loops can raise: \<open>set.remove\<close> of an absent element raises
  KeyError, and calling \<open>put\<close> on \<open>None\<close> raises AttributeError.
\<close>

datatype error = KeyError | AttributeError

text \<open>What an actor does to the world: a log line, the simulated work, a send.\<close>

datatype effect = Log string | Sleep nat | Put mailbox_id Message

subsection \<open>PitCrewMember.run\<close>

text \<open>
  One pass through the body of the \<open>while True\<close> loop, for the message \<open>msg\<close> just taken
  from the mailbox. The body is cut at its only suspension point, \<open>asyncio.sleep(1)\<close>:
  \<open>crew_receive\<close> is the part before it and \<open>crew_resume\<close> the part after it.
\<close>

datatype crew_next = Break | Continue | Work Message

definition crew_receive :: "Position \<Rightarrow> Message \<Rightarrow> effect list \<times> crew_next" where
  "crew_receive self_position msg =
     (if msg_type msg = STOP then ([], Break)
      else if msg_type msg = CHANGE_TIRE then
        ([Log (''Starting tire change at '' @ position_value self_position), Sleep 1], Work msg)
      else ([], Continue))"

definition crew_resume :: "Position \<Rightarrow> Message \<Rightarrow> effect list \<times> error option" where
  "crew_resume self_position msg =
     (let response = Message2 TIRE_CHANGED (Some self_position) in
      case sender_mailbox msg of
        None \<Rightarrow> ([Log (''Completed tire change at '' @ position_value self_position)],
                  Some AttributeError)
      | Some q \<Rightarrow> ([Log (''Completed tire change at '' @ position_value self_position),
                    Put q response], None))"

text \<open>
  The messages among the effects \<open>es\<close> that were put into the mailbox \<open>q\<close>.
\<close>

fun delivered :: "mailbox_id \<Rightarrow> effect list \<Rightarrow> Message list" where
  "delivered q [] = []"
| "delivered q (Put q' m # es) = (if q' = q then m # delivered q es else delivered q es)"
| "delivered q (Log l # es) = delivered q es"
| "delivered q (Sleep n # es) = delivered q es"

text \<open>
  The loop as a function of the content of the crew member's mailbox, \<open>self.mailbox\<close>,
  while no one else sends to it. A completion that the crew member puts into its own
  mailbox (the reply channel of the message is \<open>self.mailbox\<close>) is appended to that
  content. The function returns what the crew member did and how the loop ended: it
  left the loop at a stop message (the unread messages stay in the mailbox), it raised,
  or it consumed every message and is suspended in \<open>mailbox.get()\<close>.
\<close>

datatype crew_end = Exited "Message list" | CrewRaised error | CrewWaiting

function PitCrewMember_run :: "Position \<Rightarrow> Message list \<Rightarrow> effect list \<times> crew_end" where
  "PitCrewMember_run self_position [] = ([], CrewWaiting)"
| "PitCrewMember_run self_position (msg # mailbox) =
     (case crew_receive self_position msg of
        (es, Break) \<Rightarrow> (es, Exited mailbox)
      | (es, Continue) \<Rightarrow>
          (let (es', r) = PitCrewMember_run self_position mailbox in (es @ es', r))
      | (es, Work m) \<Rightarrow>
          (case crew_resume self_position m of
             (es1, Some e) \<Rightarrow> (es @ es1, CrewRaised e)
           | (es1, None) \<Rightarrow>
               (let (es', r) = PitCrewMember_run self_position
                                 (mailbox @ delivered (CrewMailbox self_position) es1)
                in (es @ es1 @ es', r))))"
  by pat_completeness auto
termination
  by (relation "measure (\<lambda>(p, mailbox).
        sum_list (map (\<lambda>m. if msg_type m = CHANGE_TIRE then 2 else 1) mailbox))")
     (auto simp: crew_receive_def crew_resume_def Message2_def split: if_splits option.splits)

subsection \<open>RaceEngineer.run\<close>

text \<open>
  One pass through the body of \<open>while self.pending_changes\<close>, for the message just
  taken from the mailbox: the new pending set and the log lines, or the exception.
\<close>

definition engineer_receive :: "Position set \<Rightarrow> Message \<Rightarrow> error + (Position set \<times> effect list)" where
  "engineer_receive pending_changes msg =
     (if msg_type msg = TIRE_CHANGED then
        (case position msg of
           None \<Rightarrow> Inl KeyError
         | Some p \<Rightarrow>
             if p \<in> pending_changes then
               (let pending' = pending_changes - {p} in
                Inr (pending',
                     if pending' = {} then [Log ''All tire changes complete - Car clear to exit'']
                     else []))
             else Inl KeyError)
      else Inr (pending_changes, []))"

text \<open>
  The loop as a function of the pending set and of the messages that arrive in the
  engineer's mailbox. It returns the log lines and how the loop ended: the condition
  became false (with the pending set and the unread messages), \<open>remove\<close> raised (with
  the pending set at that moment), or every message was consumed and the loop is
  suspended in \<open>mailbox.get()\<close>.
\<close>

datatype engineer_end =
    Returned "Position set" "Message list"
  | EngineerRaised error "Position set"
  | EngineerWaiting "Position set"

fun RaceEngineer_run :: "Position set \<Rightarrow> Message list \<Rightarrow> effect list \<times> engineer_end" where
  "RaceEngineer_run pending_changes [] =
     (if pending_changes = {} then ([], Returned pending_changes [])
      else ([], EngineerWaiting pending_changes))"
| "RaceEngineer_run pending_changes (msg # mailbox) =
     (if pending_changes = {} then ([], Returned pending_changes (msg # mailbox))
      else case engineer_receive pending_changes msg of
             Inl e \<Rightarrow> ([], EngineerRaised e pending_changes)
           | Inr (pending', es) \<Rightarrow>
               (let (es', r) = RaceEngineer_run pending' mailbox in (es @ es', r)))"

subsection \<open>RaceEngineer.coordinate_pit_stop and the event loop\<close>

text \<open>
  The program runs five coroutines on one asyncio event loop: the main task, which
  executes \<open>coordinate_pit_stop\<close> (and inside it \<open>RaceEngineer.run\<close>), and one task per crew
  member. A coroutine runs until it suspends, and the event loop then resumes any
  coroutine that can continue. The state below holds the two kinds of mailboxes, the
  engineer's pending set, the place where each coroutine stands, and the history of
  what the actors did.
\<close>

datatype actor = Engineer | Crew Position

text \<open>
  A crew task: not yet created, at \<open>mailbox.get()\<close>, inside \<open>asyncio.sleep(1)\<close> while
  handling a message, finished by \<open>break\<close>, or finished by an exception.
\<close>

datatype crew_pc = NotCreated | AtGet | Asleep Message | CrewDone | CrewFailed error

text \<open>
  The main task: before the first statement of \<open>coordinate_pit_stop\<close>, in the first
  \<open>for\<close> loop (with the positions still to be served), in \<open>self.run()\<close>, in the second
  \<open>for\<close> loop, in \<open>asyncio.gather\<close>, returned, or ended by an exception.
\<close>

datatype main_pc =
    Entering
  | Dispatching "Position list"
  | Aggregating
  | Stopping "Position list"
  | Gathering
  | Finished
  | MainFailed error

record pit_stop =
  engineer_mailbox :: "Message list"
  pending_changes :: "Position set"
  crew_mailbox :: "Position \<Rightarrow> Message list"
  crew_task :: "Position \<Rightarrow> crew_pc"
  main_task :: main_pc
  trace :: "(actor \<times> effect) list"

text \<open>\<open>RaceEngineer.__init__\<close>: empty mailboxes, one crew member per position, all pending.\<close>

definition RaceEngineer_init :: pit_stop where
  "RaceEngineer_init =
     \<lparr>engineer_mailbox = [], pending_changes = set all_positions,
      crew_mailbox = (\<lambda>p. []), crew_task = (\<lambda>p. NotCreated),
      main_task = Entering, trace = []\<rparr>"

text \<open>\<open>Queue.put\<close> on an unbounded queue appends and never suspends.\<close>

definition put :: "mailbox_id \<Rightarrow> Message \<Rightarrow> pit_stop \<Rightarrow> pit_stop" where
  "put q m s =
     (case q of
        EngineerMailbox \<Rightarrow> s\<lparr>engineer_mailbox := engineer_mailbox s @ [m]\<rparr>
      | CrewMailbox p \<Rightarrow> s\<lparr>crew_mailbox := (crew_mailbox s)(p := crew_mailbox s p @ [m])\<rparr>)"

definition emit :: "actor \<Rightarrow> effect \<Rightarrow> pit_stop \<Rightarrow> pit_stop" where
  "emit a e s =
     (let s' = s\<lparr>trace := trace s @ [(a, e)]\<rparr>
      in case e of Put q m \<Rightarrow> put q m s' | _ \<Rightarrow> s')"

fun perform :: "actor \<Rightarrow> effect list \<Rightarrow> pit_stop \<Rightarrow> pit_stop" where
  "perform a [] s = s"
| "perform a (e # es) s = perform a es (emit a e s)"

text \<open>
  One resumption of the crew task at \<open>self_position\<close>; \<open>None\<close> when it cannot continue
  (the mailbox is empty, or the task does not exist or has ended).
\<close>

definition crew_step :: "Position \<Rightarrow> pit_stop \<Rightarrow> pit_stop option" where
  "crew_step self_position s =
     (case crew_task s self_position of
        AtGet \<Rightarrow>
          (case crew_mailbox s self_position of
             [] \<Rightarrow> None
           | msg # rest \<Rightarrow>
               (let s1 = s\<lparr>crew_mailbox := (crew_mailbox s)(self_position := rest)\<rparr>;
                    (es, nxt) = crew_receive self_position msg;
                    s2 = perform (Crew self_position) es s1
                in Some (s2\<lparr>crew_task := (crew_task s2)(self_position :=
                     (case nxt of Break \<Rightarrow> CrewDone | Continue \<Rightarrow> AtGet | Work m \<Rightarrow> Asleep m))\<rparr>)))
      | Asleep m \<Rightarrow>
          (let (es, err) = crew_resume self_position m;
               s2 = perform (Crew self_position) es s
           in Some (s2\<lparr>crew_task := (crew_task s2)(self_position :=
                (case err of None \<Rightarrow> AtGet | Some e \<Rightarrow> CrewFailed e))\<rparr>))
      | _ \<Rightarrow> None)"

text \<open>
  \<open>asyncio.gather(*crew_tasks)\<close>: the exception of the first task that failed, else the
  results once every task has finished, else it keeps waiting.
\<close>

fun failure :: "crew_pc \<Rightarrow> error option" where
  "failure (CrewFailed e) = Some e"
| "failure _ = None"

definition gather :: "(Position \<Rightarrow> crew_pc) \<Rightarrow> (error + unit) option" where
  "gather tasks =
     (case List.map_filter (\<lambda>p. failure (tasks p)) all_positions of
        e # _ \<Rightarrow> Some (Inl e)
      | [] \<Rightarrow> if \<forall>p \<in> set all_positions. tasks p = CrewDone then Some (Inr ()) else None)"

text \<open>One resumption of the main task, statement by statement.\<close>

definition main_step :: "pit_stop \<Rightarrow> pit_stop option" where
  "main_step s =
     (case main_task s of
        Entering \<Rightarrow>
          (let s1 = perform Engineer [Log ''Car entering pit lane''] s
           in Some (s1\<lparr>crew_task := (\<lambda>p. AtGet), main_task := Dispatching all_positions\<rparr>))
      | Dispatching [] \<Rightarrow> Some (s\<lparr>main_task := Aggregating\<rparr>)
      | Dispatching (p # ps) \<Rightarrow>
          (let message = Message3 CHANGE_TIRE (Some p) (Some EngineerMailbox);
               s1 = perform Engineer [Put (CrewMailbox p) message] s
           in Some (s1\<lparr>main_task := Dispatching ps\<rparr>))
      | Aggregating \<Rightarrow>
          (if pending_changes s = {} then Some (s\<lparr>main_task := Stopping all_positions\<rparr>)
           else case engineer_mailbox s of
                  [] \<Rightarrow> None
                | msg # rest \<Rightarrow>
                    (case engineer_receive (pending_changes s) msg of
                       Inl e \<Rightarrow> Some (s\<lparr>engineer_mailbox := rest, main_task := MainFailed e\<rparr>)
                     | Inr (pending', es) \<Rightarrow>
                         Some (perform Engineer es
                                 (s\<lparr>engineer_mailbox := rest, pending_changes := pending'\<rparr>))))
      | Stopping [] \<Rightarrow> Some (s\<lparr>main_task := Gathering\<rparr>)
      | Stopping (p # ps) \<Rightarrow>
          (let s1 = perform Engineer [Put (CrewMailbox p) (Message2 STOP None)] s
           in Some (s1\<lparr>main_task := Stopping ps\<rparr>))
      | Gathering \<Rightarrow>
          (case gather (crew_task s) of
             None \<Rightarrow> None
           | Some (Inl e) \<Rightarrow> Some (s\<lparr>main_task := MainFailed e\<rparr>)
           | Some (Inr _) \<Rightarrow> Some (s\<lparr>main_task := Finished\<rparr>))
      | Finished \<Rightarrow> None
      | MainFailed e \<Rightarrow> None)"

text \<open>The event loop resumes one coroutine; a schedule is the order in which it does.\<close>

fun step :: "actor \<Rightarrow> pit_stop \<Rightarrow> pit_stop option" where
  "step Engineer s = main_step s"
| "step (Crew p) s = crew_step p s"

fun run_schedule :: "actor list \<Rightarrow> pit_stop \<Rightarrow> pit_stop option" where
  "run_schedule [] s = Some s"
| "run_schedule (a # as) s =
     (case step a s of None \<Rightarrow> None | Some s' \<Rightarrow> run_schedule as s')"

section \<open>Vocabulary of the properties\<close>

text \<open>
  The completion message a crew member builds: \<open>Message(MessageType.TIRE_CHANGED, self.position)\<close>.
\<close>

definition signal :: "Position \<Rightarrow> Message" where
  "signal p = Message2 TIRE_CHANGED (Some p)"

text \<open>
  The pending set with which a run of the engineer's loop ended, and whether the loop
  left through its condition.
\<close>

fun pending_at_end :: "engineer_end \<Rightarrow> Position set" where
  "pending_at_end (Returned P _) = P"
| "pending_at_end (EngineerRaised _ P) = P"
| "pending_at_end (EngineerWaiting P) = P"

fun returned :: "engineer_end \<Rightarrow> bool" where
  "returned (Returned _ _) = True"
| "returned _ = False"

text \<open>
  A message that \<open>RaceEngineer.run\<close> treats as the completion of position \<open>p\<close>.
\<close>

definition is_signal_of :: "Position \<Rightarrow> Message \<Rightarrow> bool" where
  "is_signal_of p m = (msg_type m = TIRE_CHANGED \<and> position m = Some p)"

text \<open>
  The two messages \<open>coordinate_pit_stop\<close> builds: the work message for a position, with
  the engineer's mailbox as reply channel, and the stop message.
\<close>

definition task_msg :: "Position \<Rightarrow> Message" where
  "task_msg p = Message3 CHANGE_TIRE (Some p) (Some EngineerMailbox)"

definition stop_msg :: Message where
  "stop_msg = Message2 STOP None"

text \<open>
  Where one crew member stands in the cycle: not yet served by the first loop, its work
  message queued, at work, its completion queued at the engineer, its completion
  observed, its stop message queued, gone.
\<close>

datatype stage = Unserved | Queued | Working | Replied | Observed | StopQueued | Gone

fun in_stage :: "stage \<Rightarrow> pit_stop \<Rightarrow> Position \<Rightarrow> bool" where
  "in_stage Unserved s p = (crew_task s p = AtGet \<and> crew_mailbox s p = [] \<and>
      p \<in> pending_changes s \<and> signal p \<notin> set (engineer_mailbox s))"
| "in_stage Queued s p = (crew_task s p = AtGet \<and> crew_mailbox s p = [task_msg p] \<and>
      p \<in> pending_changes s \<and> signal p \<notin> set (engineer_mailbox s))"
| "in_stage Working s p = (crew_task s p = Asleep (task_msg p) \<and> crew_mailbox s p = [] \<and>
      p \<in> pending_changes s \<and> signal p \<notin> set (engineer_mailbox s))"
| "in_stage Replied s p = (crew_task s p = AtGet \<and> crew_mailbox s p = [] \<and>
      p \<in> pending_changes s \<and> signal p \<in> set (engineer_mailbox s))"
| "in_stage Observed s p = (crew_task s p = AtGet \<and> crew_mailbox s p = [] \<and>
      p \<notin> pending_changes s)"
| "in_stage StopQueued s p = (crew_task s p = AtGet \<and> crew_mailbox s p = [stop_msg] \<and>
      p \<notin> pending_changes s)"
| "in_stage Gone s p = (crew_task s p = CrewDone \<and> crew_mailbox s p = [] \<and>
      p \<notin> pending_changes s)"

text \<open>
  The stages a crew member can be in, for each place of the main task.
\<close>

definition stage_ok :: "pit_stop \<Rightarrow> Position \<Rightarrow> bool" where
  "stage_ok s p =
     (case main_task s of
        Entering \<Rightarrow> crew_task s p = NotCreated \<and> crew_mailbox s p = [] \<and>
                     p \<in> pending_changes s \<and> engineer_mailbox s = []
      | Dispatching ps \<Rightarrow>
          (if p \<in> set ps then in_stage Unserved s p
           else in_stage Queued s p \<or> in_stage Working s p \<or> in_stage Replied s p)
      | Aggregating \<Rightarrow>
          in_stage Queued s p \<or> in_stage Working s p \<or> in_stage Replied s p \<or>
          in_stage Observed s p
      | Stopping ps \<Rightarrow>
          (if p \<in> set ps then in_stage Observed s p
           else in_stage StopQueued s p \<or> in_stage Gone s p)
      | Gathering \<Rightarrow> in_stage StopQueued s p \<or> in_stage Gone s p
      | Finished \<Rightarrow> in_stage Gone s p
      | MainFailed e \<Rightarrow> False)"

fun todo_ok :: "main_pc \<Rightarrow> bool" where
  "todo_ok (Dispatching ps) = distinct ps"
| "todo_ok (Stopping ps) = distinct ps"
| "todo_ok _ = True"

text \<open>
  The invariant of the cycle: the engineer's mailbox holds completions of pending
  positions, each at most once, and every crew member is in a stage that fits the main
  task.
\<close>

definition cycle_inv :: "pit_stop \<Rightarrow> bool" where
  "cycle_inv s = (distinct (engineer_mailbox s) \<and>
     set (engineer_mailbox s) \<subseteq> signal ` pending_changes s \<and>
     todo_ok (main_task s) \<and> (\<forall>p. stage_ok s p))"

text \<open>
  An upper bound on the resumptions still to come: a queued work message costs three
  (take it, wake up, and the engineer takes the completion), any other queued message
  one, a sleeping crew member two, and the main task what its remaining statements cost.
\<close>

fun msg_weight :: "Message \<Rightarrow> nat" where
  "msg_weight m = (if msg_type m = CHANGE_TIRE then 3 else 1)"

fun task_weight :: "crew_pc \<Rightarrow> nat" where
  "task_weight (Asleep m) = 2"
| "task_weight _ = 0"

fun main_weight :: "main_pc \<Rightarrow> nat" where
  "main_weight Entering = 29"
| "main_weight (Dispatching ps) = 4 * length ps + 12"
| "main_weight Aggregating = 11"
| "main_weight (Stopping ps) = 2 * length ps + 2"
| "main_weight Gathering = 1"
| "main_weight Finished = 0"
| "main_weight (MainFailed e) = 0"

definition steps_left :: "pit_stop \<Rightarrow> nat" where
  "steps_left s =
     main_weight (main_task s) + length (engineer_mailbox s) +
     (\<Sum>p \<leftarrow> all_positions. sum_list (map msg_weight (crew_mailbox s p)) + task_weight (crew_task s p))"

definition mail_left :: "(Position \<Rightarrow> Message list) \<Rightarrow> nat" where
  "mail_left mb = (\<Sum>p \<leftarrow> all_positions. sum_list (map msg_weight (mb p)))"

definition tasks_left :: "(Position \<Rightarrow> crew_pc) \<Rightarrow> nat" where
  "tasks_left ts = (\<Sum>p \<leftarrow> all_positions. task_weight (ts p))"

text \<open>
  The three sends of the cycle as entries of the history: the engineer's work message to
  a crew member, a crew member's completion to the engineer, the engineer's stop message.
\<close>

definition work_put :: "Position \<Rightarrow> actor \<times> effect" where
  "work_put p = (Engineer, Put (CrewMailbox p) (Message3 CHANGE_TIRE (Some p) (Some EngineerMailbox)))"

definition done_put :: "Position \<Rightarrow> actor \<times> effect" where
  "done_put p = (Crew p, Put EngineerMailbox (Message2 TIRE_CHANGED (Some p)))"

definition stop_put :: "Position \<Rightarrow> actor \<times> effect" where
  "stop_put p = (Engineer, Put (CrewMailbox p) (Message2 STOP None))"

text \<open>
  Entries of the history that are sends of a message of type \<open>t\<close>, and sends of a stop
  message into the mailbox of position \<open>p\<close>.
\<close>

fun is_put_of :: "MessageType \<Rightarrow> actor \<times> effect \<Rightarrow> bool" where
  "is_put_of t (a, Put q m) = (msg_type m = t)"
| "is_put_of t (a, e) = False"

fun is_stop_to :: "Position \<Rightarrow> actor \<times> effect \<Rightarrow> bool" where
  "is_stop_to p (a, Put q m) = (q = CrewMailbox p \<and> msg_type m = STOP)"
| "is_stop_to p (a, e) = False"

text \<open>
  The positions a \<open>for\<close> loop over the crew has already served when \<open>ps\<close> are still to
  come, and with it the positions that have been sent their work message and their stop
  message at each place of the main task.
\<close>

fun served :: "Position list \<Rightarrow> Position list" where
  "served ps = take (length all_positions - length ps) all_positions"

fun dispatched :: "main_pc \<Rightarrow> Position list" where
  "dispatched Entering = []"
| "dispatched (Dispatching ps) = served ps"
| "dispatched _ = all_positions"

fun stopped :: "main_pc \<Rightarrow> Position list" where
  "stopped (Stopping ps) = served ps"
| "stopped Gathering = all_positions"
| "stopped Finished = all_positions"
| "stopped _ = []"

fun todo :: "main_pc \<Rightarrow> Position list" where
  "todo (Dispatching ps) = ps"
| "todo (Stopping ps) = ps"
| "todo _ = []"

text \<open>
  Causal order of a history: every stop message sent to a position comes after the
  completion sent by that position.
\<close>

definition causal :: "(actor \<times> effect) list \<Rightarrow> bool" where
  "causal t = (\<forall>i < length t. \<forall>p. is_stop_to p (t ! i) \<longrightarrow> done_put p \<in> set (take i t))"

text \<open>
  The invariant of the history.
\<close>

definition trace_inv :: "pit_stop \<Rightarrow> bool" where
  "trace_inv s =
     (causal (trace s) \<and>
      (\<forall>p. signal p \<in> set (engineer_mailbox s) \<or> p \<notin> pending_changes s \<longrightarrow> done_put p \<in> set (trace s)) \<and>
      (\<exists>qs. all_positions = qs @ todo (main_task s)) \<and>
      filter (is_put_of CHANGE_TIRE) (trace s) = map work_put (dispatched (main_task s)) \<and>
      filter (is_put_of STOP) (trace s) = map stop_put (stopped (main_task s)))"

definition good :: "pit_stop \<Rightarrow> bool" where
  "good s = (cycle_inv s \<and> trace_inv s)"

text \<open>
  One schedule of a whole cycle: the main task runs up to its first wait, the four crew
  members start their work, they finish in the order rear left, front left, rear right,
  front right, the engineer takes the four completions and sends the stop messages, the
  crew members leave, and \<open>gather\<close> returns. \<open>dispatch_schedule\<close> is its beginning, up to
  the call of \<open>self.run()\<close>.
\<close>

definition example_schedule :: "actor list" where
  "example_schedule =
     [Engineer, Engineer, Engineer, Engineer, Engineer, Engineer,
      Crew FRONT_LEFT, Crew FRONT_RIGHT, Crew REAR_LEFT, Crew REAR_RIGHT,
      Crew REAR_LEFT, Crew FRONT_LEFT, Crew REAR_RIGHT, Crew FRONT_RIGHT,
      Engineer, Engineer, Engineer, Engineer,
      Engineer, Engineer, Engineer, Engineer, Engineer, Engineer,
      Crew FRONT_LEFT, Crew FRONT_RIGHT, Crew REAR_LEFT, Crew REAR_RIGHT,
      Engineer]"

definition example_final :: pit_stop where
  "example_final = the (run_schedule example_schedule RaceEngineer_init)"

definition dispatch_schedule :: "actor list" where
  "dispatch_schedule = [Engineer, Engineer, Engineer, Engineer, Engineer, Engineer]"

definition dispatch_final :: pit_stop where
  "dispatch_final = the (run_schedule dispatch_schedule RaceEngineer_init)"

section \<open>Properties\<close>

subsection \<open>The engineer's loop on a stream of completions\<close>

lemma UNIV_Position: "set all_positions = UNIV"
proof -
  have "p \<in> set all_positions" for p by (cases p) (simp_all add: all_positions_def)
  then show ?thesis by auto
qed

lemma engineer_receive_signal:
  "p \<in> pending \<Longrightarrow> engineer_receive pending (signal p) =
     Inr (pending - {p}, if pending - {p} = {} then [Log ''All tire changes complete - Car clear to exit''] else [])"
  by (simp add: engineer_receive_def signal_def Message2_def)

lemma run_signals:
  "distinct ps \<Longrightarrow> set ps \<subseteq> pending \<Longrightarrow>
   snd (RaceEngineer_run pending (map signal ps)) =
     (if set ps = pending then Returned {} [] else EngineerWaiting (pending - set ps))"
proof (induction ps arbitrary: pending)
  case Nil
  then show ?case by auto
next
  case (Cons p ps)
  have ne: "pending \<noteq> {}" using Cons.prems by auto
  have d: "distinct ps" "set ps \<subseteq> pending - {p}" using Cons.prems by auto
  have r: "engineer_receive pending (signal p) = Inr (pending - {p}, if pending - {p} = {} then [Log ''All tire changes complete - Car clear to exit''] else [])"
    using Cons.prems by (simp add: engineer_receive_signal)
  have eq: "(set (p # ps) = pending) = (set ps = pending - {p})" using Cons.prems by auto
  have "snd (RaceEngineer_run pending (map signal (p # ps))) = snd (RaceEngineer_run (pending - {p}) (map signal ps))"
    using ne r by (simp add: case_prod_beta)
  also have "\<dots> = (if set ps = pending - {p} then Returned {} [] else EngineerWaiting (pending - {p} - set ps))"
    by (rule Cons.IH[OF d])
  also have "\<dots> = (if set (p # ps) = pending then Returned {} [] else EngineerWaiting (pending - set (p # ps)))"
  proof -
    have "pending - {p} - set ps = pending - set (p # ps)" by auto
    then show ?thesis unfolding eq by simp
  qed
  finally show ?case .
qed

lemma never_returns:
  "p \<in> pending \<Longrightarrow> \<forall>m \<in> set msgs. \<not> is_signal_of p m \<Longrightarrow>
   \<not> returned (snd (RaceEngineer_run pending msgs)) \<and> p \<in> pending_at_end (snd (RaceEngineer_run pending msgs))"
proof (induction msgs arbitrary: pending)
  case Nil
  then show ?case by auto
next
  case (Cons m msgs)
  have ne: "pending \<noteq> {}" using Cons.prems by auto
  show ?case
  proof (cases "engineer_receive pending m")
    case (Inl e)
    then show ?thesis using ne Cons.prems by simp
  next
    case (Inr r)
    obtain P' es where r: "r = (P', es)" by (cases r)
    have "p \<in> P'" using Inr r Cons.prems
      by (auto simp: engineer_receive_def is_signal_of_def Let_def split: if_splits option.splits)
    moreover have "\<forall>m \<in> set msgs. \<not> is_signal_of p m" using Cons.prems by simp
    ultimately have "\<not> returned (snd (RaceEngineer_run P' msgs)) \<and> p \<in> pending_at_end (snd (RaceEngineer_run P' msgs))"
      by (rule Cons.IH)
    then show ?thesis using ne Inr r by (simp add: case_prod_beta)
  qed
qed

subsection \<open>The steps of the event loop, one equation per case\<close>

lemma msg_simps [simp]:
  "msg_type (task_msg p) = CHANGE_TIRE" "position (task_msg p) = Some p"
  "sender_mailbox (task_msg p) = Some EngineerMailbox"
  "msg_type stop_msg = STOP" "position stop_msg = None" "sender_mailbox stop_msg = None"
  "msg_type (signal p) = TIRE_CHANGED" "position (signal p) = Some p" "sender_mailbox (signal p) = None"
  by (simp_all add: task_msg_def stop_msg_def signal_def Message2_def Message3_def)

lemma msg_inj [simp]:
  "(task_msg p = task_msg q) = (p = q)" "(signal p = signal q) = (p = q)"
  "task_msg p \<noteq> stop_msg" "task_msg p \<noteq> signal q" "signal p \<noteq> stop_msg"
  "stop_msg \<noteq> task_msg p" "signal q \<noteq> task_msg p" "stop_msg \<noteq> signal p"
  by (auto simp: task_msg_def stop_msg_def signal_def Message2_def Message3_def)

lemma crew_step_stop:
  "crew_task s p = AtGet \<Longrightarrow> crew_mailbox s p = msg # rest \<Longrightarrow> msg_type msg = STOP \<Longrightarrow>
   crew_step p s = Some (s\<lparr>crew_mailbox := (crew_mailbox s)(p := rest),
                           crew_task := (crew_task s)(p := CrewDone)\<rparr>)"
  by (simp add: crew_step_def crew_receive_def)

lemma crew_step_work:
  "crew_task s p = AtGet \<Longrightarrow> crew_mailbox s p = msg # rest \<Longrightarrow> msg_type msg = CHANGE_TIRE \<Longrightarrow>
   crew_step p s = Some (s\<lparr>crew_mailbox := (crew_mailbox s)(p := rest),
       trace := trace s @ [(Crew p, Log (''Starting tire change at '' @ position_value p)), (Crew p, Sleep 1)],
       crew_task := (crew_task s)(p := Asleep msg)\<rparr>)"
  by (simp add: crew_step_def crew_receive_def emit_def)

lemma crew_step_other:
  "crew_task s p = AtGet \<Longrightarrow> crew_mailbox s p = msg # rest \<Longrightarrow> msg_type msg = TIRE_CHANGED \<Longrightarrow>
   crew_step p s = Some (s\<lparr>crew_mailbox := (crew_mailbox s)(p := rest),
       crew_task := (crew_task s)(p := AtGet)\<rparr>)"
  by (simp add: crew_step_def crew_receive_def emit_def)

lemma crew_step_wake_engineer:
  "crew_task s p = Asleep m \<Longrightarrow> sender_mailbox m = Some EngineerMailbox \<Longrightarrow>
   crew_step p s = Some (s\<lparr>
       trace := trace s @ [(Crew p, Log (''Completed tire change at '' @ position_value p)),
                           (Crew p, Put EngineerMailbox (signal p))],
       engineer_mailbox := engineer_mailbox s @ [signal p],
       crew_task := (crew_task s)(p := AtGet)\<rparr>)"
  by (simp add: crew_step_def crew_resume_def emit_def put_def signal_def)

lemma crew_step_wake_crew:
  "crew_task s p = Asleep m \<Longrightarrow> sender_mailbox m = Some (CrewMailbox q) \<Longrightarrow>
   crew_step p s = Some (s\<lparr>
       trace := trace s @ [(Crew p, Log (''Completed tire change at '' @ position_value p)),
                           (Crew p, Put (CrewMailbox q) (signal p))],
       crew_mailbox := (crew_mailbox s)(q := crew_mailbox s q @ [signal p]),
       crew_task := (crew_task s)(p := AtGet)\<rparr>)"
  by (simp add: crew_step_def crew_resume_def emit_def put_def signal_def)

lemma crew_step_wake_none:
  "crew_task s p = Asleep m \<Longrightarrow> sender_mailbox m = None \<Longrightarrow>
   crew_step p s = Some (s\<lparr>
       trace := trace s @ [(Crew p, Log (''Completed tire change at '' @ position_value p))],
       crew_task := (crew_task s)(p := CrewFailed AttributeError)\<rparr>)"
  by (simp add: crew_step_def crew_resume_def emit_def put_def signal_def)

lemma main_step_entering:
  "main_task s = Entering \<Longrightarrow>
   main_step s = Some (s\<lparr>trace := trace s @ [(Engineer, Log ''Car entering pit lane'')],
                         crew_task := (\<lambda>p. AtGet), main_task := Dispatching all_positions\<rparr>)"
  by (simp add: main_step_def emit_def)

lemma main_step_dispatch:
  "main_task s = Dispatching (p # ps) \<Longrightarrow>
   main_step s = Some (s\<lparr>trace := trace s @ [(Engineer, Put (CrewMailbox p) (task_msg p))],
                         crew_mailbox := (crew_mailbox s)(p := crew_mailbox s p @ [task_msg p]),
                         main_task := Dispatching ps\<rparr>)"
  by (simp add: main_step_def emit_def put_def task_msg_def Let_def)

lemma main_step_dispatched:
  "main_task s = Dispatching [] \<Longrightarrow> main_step s = Some (s\<lparr>main_task := Aggregating\<rparr>)"
  by (simp add: main_step_def)

lemma main_step_all_done:
  "main_task s = Aggregating \<Longrightarrow> pending_changes s = {} \<Longrightarrow>
   main_step s = Some (s\<lparr>main_task := Stopping all_positions\<rparr>)"
  by (simp add: main_step_def)

lemma main_step_wait:
  "main_task s = Aggregating \<Longrightarrow> pending_changes s \<noteq> {} \<Longrightarrow> engineer_mailbox s = [] \<Longrightarrow>
   main_step s = None"
  by (simp add: main_step_def)

lemma main_step_receive:
  "main_task s = Aggregating \<Longrightarrow> pending_changes s \<noteq> {} \<Longrightarrow> engineer_mailbox s = msg # rest \<Longrightarrow>
   main_step s =
     (case engineer_receive (pending_changes s) msg of
        Inl e \<Rightarrow> Some (s\<lparr>engineer_mailbox := rest, main_task := MainFailed e\<rparr>)
      | Inr (pending', es) \<Rightarrow>
          Some (perform Engineer es (s\<lparr>engineer_mailbox := rest, pending_changes := pending'\<rparr>)))"
  by (simp add: main_step_def)

lemma main_step_stop:
  "main_task s = Stopping (p # ps) \<Longrightarrow>
   main_step s = Some (s\<lparr>trace := trace s @ [(Engineer, Put (CrewMailbox p) stop_msg)],
                         crew_mailbox := (crew_mailbox s)(p := crew_mailbox s p @ [stop_msg]),
                         main_task := Stopping ps\<rparr>)"
  by (simp add: main_step_def emit_def put_def stop_msg_def)

lemma main_step_stopped:
  "main_task s = Stopping [] \<Longrightarrow> main_step s = Some (s\<lparr>main_task := Gathering\<rparr>)"
  by (simp add: main_step_def)

subsection \<open>The invariant of the cycle\<close>

lemma inv_init: "cycle_inv RaceEngineer_init"
  by (simp add: cycle_inv_def stage_ok_def RaceEngineer_init_def UNIV_Position)

lemma distinct_all_positions: "distinct all_positions"
  by (simp add: all_positions_def)

lemma cycle_invI:
  "distinct (engineer_mailbox s) \<Longrightarrow> set (engineer_mailbox s) \<subseteq> signal ` pending_changes s \<Longrightarrow>
   todo_ok (main_task s) \<Longrightarrow> (\<And>p. stage_ok s p) \<Longrightarrow> cycle_inv s"
  by (simp add: cycle_inv_def)

lemma cycle_invD:
  assumes "cycle_inv s"
  shows "distinct (engineer_mailbox s)" "set (engineer_mailbox s) \<subseteq> signal ` pending_changes s"
    "todo_ok (main_task s)" "stage_ok s p"
  using assms by (simp_all add: cycle_inv_def)

lemma inv_main_step:
  assumes i: "cycle_inv s" and st: "main_step s = Some s'"
  shows "cycle_inv s'"
proof (cases "main_task s")
  case Entering
  then have s': "s' = s\<lparr>trace := trace s @ [(Engineer, Log ''Car entering pit lane'')],
                         crew_task := (\<lambda>p. AtGet), main_task := Dispatching all_positions\<rparr>"
    using st by (simp add: main_step_entering)
  show ?thesis
  proof (rule cycle_invI)
    fix p show "stage_ok s' p"
      using cycle_invD(4)[OF i, of p] Entering by (simp add: s' stage_ok_def UNIV_Position)
  qed (use cycle_invD[OF i] in \<open>simp_all add: s' distinct_all_positions\<close>)
next
  case (Dispatching ps)
  show ?thesis
  proof (cases ps)
    case Nil
    then have s': "s' = s\<lparr>main_task := Aggregating\<rparr>"
      using st Dispatching by (simp add: main_step_dispatched)
    show ?thesis
    proof (rule cycle_invI)
      fix p show "stage_ok s' p"
        using cycle_invD(4)[OF i, of p] Dispatching Nil by (auto simp add: s' stage_ok_def)
    qed (use cycle_invD[OF i] in \<open>simp_all add: s'\<close>)
  next
    case (Cons q ps')
    then have s': "s' = s\<lparr>trace := trace s @ [(Engineer, Put (CrewMailbox q) (task_msg q))],
                         crew_mailbox := (crew_mailbox s)(q := crew_mailbox s q @ [task_msg q]),
                         main_task := Dispatching ps'\<rparr>"
      using st Dispatching by (simp add: main_step_dispatch)
    have d: "q \<notin> set ps'" "distinct ps'" using cycle_invD(3)[OF i] Dispatching Cons by simp_all
    show ?thesis
    proof (rule cycle_invI)
      fix p show "stage_ok s' p"
        using cycle_invD(4)[OF i, of p] Dispatching Cons d
        by (cases "p = q") (auto simp add: s' stage_ok_def)
    qed (use cycle_invD[OF i] d in \<open>simp_all add: s'\<close>)
  qed
next
  case Aggregating
  show ?thesis
  proof (cases "pending_changes s = {}")
    case True
    then have s': "s' = s\<lparr>main_task := Stopping all_positions\<rparr>"
      using st Aggregating by (simp add: main_step_all_done)
    show ?thesis
    proof (rule cycle_invI)
      fix p show "stage_ok s' p"
        using cycle_invD(4)[OF i, of p] Aggregating True by (auto simp add: s' stage_ok_def UNIV_Position)
    qed (use cycle_invD[OF i] in \<open>simp_all add: s' distinct_all_positions\<close>)
  next
    case False
    then obtain msg rest where mb: "engineer_mailbox s = msg # rest"
      using st Aggregating by (cases "engineer_mailbox s") (simp_all add: main_step_wait)
    obtain q where q: "msg = signal q" "q \<in> pending_changes s"
      using cycle_invD(2)[OF i] mb by auto
    have nq: "signal q \<notin> set rest" "distinct rest" using cycle_invD(1)[OF i] mb q by simp_all
    have s': "s' = perform Engineer
        (if pending_changes s - {q} = {} then [Log ''All tire changes complete - Car clear to exit''] else [])
        (s\<lparr>engineer_mailbox := rest, pending_changes := pending_changes s - {q}\<rparr>)"
      using st Aggregating False mb q by (simp add: main_step_receive engineer_receive_signal)
    have f: "engineer_mailbox s' = rest" "pending_changes s' = pending_changes s - {q}"
      "main_task s' = Aggregating" "crew_task s' = crew_task s" "crew_mailbox s' = crew_mailbox s"
      using Aggregating by (simp_all add: s' emit_def)
    show ?thesis
    proof (rule cycle_invI)
      fix p show "stage_ok s' p"
        using cycle_invD(4)[OF i, of p] Aggregating mb q nq
        by (cases "p = q") (auto simp add: f stage_ok_def)
    next
      show "set (engineer_mailbox s') \<subseteq> signal ` pending_changes s'"
        using cycle_invD(2)[OF i] mb nq q by (auto simp: f)
    qed (use nq in \<open>simp_all add: f\<close>)
  qed
next
  case (Stopping ps)
  show ?thesis
  proof (cases ps)
    case Nil
    then have s': "s' = s\<lparr>main_task := Gathering\<rparr>"
      using st Stopping by (simp add: main_step_stopped)
    show ?thesis
    proof (rule cycle_invI)
      fix p show "stage_ok s' p"
        using cycle_invD(4)[OF i, of p] Stopping Nil by (auto simp add: s' stage_ok_def)
    qed (use cycle_invD[OF i] in \<open>simp_all add: s'\<close>)
  next
    case (Cons q ps')
    then have s': "s' = s\<lparr>trace := trace s @ [(Engineer, Put (CrewMailbox q) stop_msg)],
                         crew_mailbox := (crew_mailbox s)(q := crew_mailbox s q @ [stop_msg]),
                         main_task := Stopping ps'\<rparr>"
      using st Stopping by (simp add: main_step_stop)
    have d: "q \<notin> set ps'" "distinct ps'" using cycle_invD(3)[OF i] Stopping Cons by simp_all
    show ?thesis
    proof (rule cycle_invI)
      fix p show "stage_ok s' p"
        using cycle_invD(4)[OF i, of p] Stopping Cons d
        by (cases "p = q") (auto simp add: s' stage_ok_def)
    qed (use cycle_invD[OF i] d in \<open>simp_all add: s'\<close>)
  qed
next
  case Gathering
  have nf: "List.map_filter (\<lambda>p. failure (crew_task s p)) all_positions = []"
  proof -
    have "failure (crew_task s p) = None" for p
      using cycle_invD(4)[OF i, of p] Gathering by (auto simp: stage_ok_def)
    then show ?thesis by (simp add: List.map_filter_def)
  qed
  then have s': "s' = s\<lparr>main_task := Finished\<rparr>" and all: "\<forall>p\<in>set all_positions. crew_task s p = CrewDone"
    using st Gathering by (auto simp add: main_step_def gather_def split: if_splits)
  show ?thesis
  proof (rule cycle_invI)
    fix p show "stage_ok s' p"
      using cycle_invD(4)[OF i, of p] Gathering all by (auto simp add: s' stage_ok_def UNIV_Position)
  qed (use cycle_invD[OF i] in \<open>simp_all add: s'\<close>)
next
  case Finished
  then show ?thesis using assms by (simp add: main_step_def)
next
  case (MainFailed e)
  then show ?thesis using assms by (simp add: main_step_def)
qed

lemma inv_crew_step:
  assumes i: "cycle_inv s" and st: "crew_step q s = Some s'"
  shows "cycle_inv s'"
proof -
  have ne: "main_task s \<noteq> Entering"
    using cycle_invD(4)[OF i, of q] st by (auto simp: stage_ok_def crew_step_def)
  consider (queued) "in_stage Queued s q" | (working) "in_stage Working s q"
    | (stopq) "in_stage StopQueued s q"
    using cycle_invD(4)[OF i, of q] st ne
    by (cases "main_task s") (auto simp: stage_ok_def crew_step_def split: if_splits)
  then show ?thesis
  proof cases
    case queued
    then have s': "s' = s\<lparr>crew_mailbox := (crew_mailbox s)(q := []),
       trace := trace s @ [(Crew q, Log (''Starting tire change at '' @ position_value q)), (Crew q, Sleep 1)],
       crew_task := (crew_task s)(q := Asleep (task_msg q))\<rparr>"
      using st by (simp add: crew_step_work[where msg="task_msg q" and rest="[]"])
    show ?thesis
    proof (rule cycle_invI)
      fix p show "stage_ok s' p"
        using cycle_invD(4)[OF i, of p] cycle_invD(4)[OF i, of q] queued
        by (cases "p = q"; cases "main_task s") (auto simp add: s' stage_ok_def split: if_splits)
    qed (use cycle_invD[OF i] in \<open>simp_all add: s'\<close>)
  next
    case working
    then have s': "s' = s\<lparr>
       trace := trace s @ [(Crew q, Log (''Completed tire change at '' @ position_value q)),
                           (Crew q, Put EngineerMailbox (signal q))],
       engineer_mailbox := engineer_mailbox s @ [signal q],
       crew_task := (crew_task s)(q := AtGet)\<rparr>"
      using st by (simp add: crew_step_wake_engineer[where m="task_msg q"])
    show ?thesis
    proof (rule cycle_invI)
      fix p show "stage_ok s' p"
        using cycle_invD(4)[OF i, of p] cycle_invD(4)[OF i, of q] working
        by (cases "p = q"; cases "main_task s") (auto simp add: s' stage_ok_def split: if_splits)
    qed (use cycle_invD[OF i] working in \<open>auto simp add: s'\<close>)
  next
    case stopq
    then have s': "s' = s\<lparr>crew_mailbox := (crew_mailbox s)(q := []),
                           crew_task := (crew_task s)(q := CrewDone)\<rparr>"
      using st by (simp add: crew_step_stop[where msg="stop_msg" and rest="[]"])
    show ?thesis
    proof (rule cycle_invI)
      fix p show "stage_ok s' p"
        using cycle_invD(4)[OF i, of p] cycle_invD(4)[OF i, of q] stopq
        by (cases "p = q"; cases "main_task s") (auto simp add: s' stage_ok_def split: if_splits)
    qed (use cycle_invD[OF i] in \<open>simp_all add: s'\<close>)
  qed
qed

lemma inv_step: "cycle_inv s \<Longrightarrow> step a s = Some s' \<Longrightarrow> cycle_inv s'"
  by (cases a) (auto intro: inv_main_step inv_crew_step)

lemma inv_run_schedule:
  "cycle_inv s \<Longrightarrow> run_schedule sched s = Some s' \<Longrightarrow> cycle_inv s'"
  by (induction sched arbitrary: s) (auto split: option.splits dest: inv_step)

lemma inv_reachable: "run_schedule sched RaceEngineer_init = Some s \<Longrightarrow> cycle_inv s"
  using inv_run_schedule[OF inv_init] .

lemma no_deadlock:
  assumes i: "cycle_inv s" and e: "\<forall>a. step a s = None"
  shows "main_task s = Finished"
proof -
  have m: "main_step s = None" using e[rule_format, of Engineer] by simp
  have c: "crew_step p s = None" for p using e[rule_format, of "Crew p"] by simp
  have idle: "\<not> in_stage Queued s p \<and> \<not> in_stage Working s p \<and> \<not> in_stage StopQueued s p" for p
    using c[of p] by (auto simp: crew_step_def Let_def split: prod.splits)
  show ?thesis
  proof (cases "main_task s")
    case Aggregating
    show ?thesis
    proof (cases "pending_changes s = {}")
      case True then show ?thesis using m Aggregating by (simp add: main_step_def)
    next
      case False
      then obtain p where p: "p \<in> pending_changes s" by auto
      have "in_stage Replied s p"
        using cycle_invD(4)[OF i, of p] idle[of p] Aggregating p by (auto simp: stage_ok_def)
      then obtain msg rest where "engineer_mailbox s = msg # rest"
        by (cases "engineer_mailbox s") auto
      then show ?thesis using m Aggregating False
        by (simp add: main_step_def split: sum.splits prod.splits)
    qed
  next
    case Gathering
    have "crew_task s p = CrewDone" for p
      using cycle_invD(4)[OF i, of p] idle[of p] Gathering by (auto simp: stage_ok_def)
    then show ?thesis using m Gathering
      by (auto simp add: main_step_def gather_def List.map_filter_def)
  next
    case (Dispatching ps) then show ?thesis using m by (cases ps) (simp_all add: main_step_def Let_def)
  next
    case (Stopping ps) then show ?thesis using m by (cases ps) (simp_all add: main_step_def Let_def)
  next
    case (MainFailed e) then show ?thesis using cycle_invD(4)[OF i] by (simp add: stage_ok_def)
  qed (use m in \<open>simp_all add: main_step_def Let_def\<close>)
qed

subsection \<open>Every resumption uses up the bound\<close>

lemma sum_positions_upd:
  "(\<Sum>p \<leftarrow> all_positions. f ((g(q := x)) p)) + f (g q) = (\<Sum>p \<leftarrow> all_positions. f (g p)) + (f x :: nat)"
  by (cases q) (simp_all add: all_positions_def)

lemma sum_positions_split:
  "(\<Sum>p \<leftarrow> all_positions. (f p :: nat) + g p) = (\<Sum>p \<leftarrow> all_positions. f p) + (\<Sum>p \<leftarrow> all_positions. g p)"
  by (simp add: all_positions_def)

lemma steps_left_alt:
  "steps_left s = main_weight (main_task s) + length (engineer_mailbox s) +
     mail_left (crew_mailbox s) + tasks_left (crew_task s)"
  by (simp add: steps_left_def mail_left_def tasks_left_def sum_positions_split)

lemma mail_left_upd:
  "mail_left (mb(q := xs)) + sum_list (map msg_weight (mb q)) = mail_left mb + sum_list (map msg_weight xs)"
  unfolding mail_left_def by (rule sum_positions_upd[where f="\<lambda>ms. sum_list (map msg_weight ms)"])

lemma tasks_left_upd:
  "tasks_left (ts(q := t)) + task_weight (ts q) = tasks_left ts + task_weight t"
  unfolding tasks_left_def by (rule sum_positions_upd[where f="task_weight"])

lemma tasks_left_AtGet [simp]: "tasks_left (\<lambda>p. AtGet) = 0"
  by (simp add: tasks_left_def all_positions_def)

lemma main_step_decreases:
  assumes "main_step s = Some s'"
  shows "steps_left s' < steps_left s"
proof (cases "main_task s")
  case Entering
  then show ?thesis using assms
    by (auto simp: main_step_entering steps_left_alt all_positions_def)
next
  case (Dispatching ps)
  then show ?thesis using assms mail_left_upd[of "crew_mailbox s" "hd ps" "crew_mailbox s (hd ps) @ [task_msg (hd ps)]"]
    by (cases ps) (auto simp: main_step_dispatch main_step_dispatched steps_left_alt)
next
  case Aggregating
  show ?thesis
  proof (cases "pending_changes s = {}")
    case True
    then show ?thesis using assms Aggregating
      by (auto simp: main_step_all_done steps_left_alt all_positions_def)
  next
    case False
    then obtain msg rest where mb: "engineer_mailbox s = msg # rest"
      using assms Aggregating by (cases "engineer_mailbox s") (simp_all add: main_step_wait)
    show ?thesis using assms Aggregating False mb
      by (auto simp: main_step_receive steps_left_alt engineer_receive_def emit_def Let_def
               split: sum.splits prod.splits if_splits option.splits)
  qed
next
  case (Stopping ps)
  then show ?thesis using assms mail_left_upd[of "crew_mailbox s" "hd ps" "crew_mailbox s (hd ps) @ [stop_msg]"]
    by (cases ps) (auto simp: main_step_stop main_step_stopped steps_left_alt)
next
  case Gathering
  then show ?thesis using assms
    by (auto simp: main_step_def steps_left_alt split: option.splits sum.splits)
qed (use assms in \<open>simp_all add: main_step_def\<close>)

lemma crew_step_decreases:
  assumes "crew_step q s = Some s'"
  shows "steps_left s' < steps_left s"
proof (cases "crew_task s q")
  case AtGet
  then obtain msg rest where mb: "crew_mailbox s q = msg # rest"
    using assms by (cases "crew_mailbox s q") (simp_all add: crew_step_def)
  show ?thesis
  proof (cases "msg_type msg")
    case CHANGE_TIRE
    then show ?thesis
      using assms AtGet mb mail_left_upd[of "crew_mailbox s" q rest]
        tasks_left_upd[of "crew_task s" q "Asleep msg"]
      by (auto simp: crew_step_work steps_left_alt)
  next
    case TIRE_CHANGED
    then show ?thesis
      using assms AtGet mb mail_left_upd[of "crew_mailbox s" q rest]
        tasks_left_upd[of "crew_task s" q "AtGet"]
      by (auto simp: crew_step_other steps_left_alt)
  next
    case STOP
    then show ?thesis
      using assms AtGet mb mail_left_upd[of "crew_mailbox s" q rest]
        tasks_left_upd[of "crew_task s" q "CrewDone"]
      by (auto simp: crew_step_stop steps_left_alt)
  qed
next
  case (Asleep m)
  show ?thesis
  proof (cases "sender_mailbox m")
    case None
    then show ?thesis
      using assms Asleep tasks_left_upd[of "crew_task s" q "CrewFailed AttributeError"]
      by (auto simp: crew_step_wake_none steps_left_alt)
  next
    case (Some r)
    show ?thesis
    proof (cases r)
      case EngineerMailbox
      then show ?thesis
        using assms Asleep Some tasks_left_upd[of "crew_task s" q "AtGet"]
        by (auto simp: crew_step_wake_engineer steps_left_alt)
    next
      case (CrewMailbox r')
      then show ?thesis
        using assms Asleep Some tasks_left_upd[of "crew_task s" q "AtGet"]
          mail_left_upd[of "crew_mailbox s" r' "crew_mailbox s r' @ [signal q]"]
        by (auto simp: crew_step_wake_crew steps_left_alt)
    qed
  qed
qed (use assms in \<open>simp_all add: crew_step_def\<close>)

lemma step_decreases: "step a s = Some s' \<Longrightarrow> steps_left s' < steps_left s"
  by (cases a) (auto dest: main_step_decreases crew_step_decreases)

lemma run_schedule_bound:
  "run_schedule sched s = Some s' \<Longrightarrow> length sched + steps_left s' \<le> steps_left s"
proof (induction sched arbitrary: s)
  case Nil then show ?case by simp
next
  case (Cons a sched)
  then obtain s1 where s1: "step a s = Some s1" "run_schedule sched s1 = Some s'"
    by (auto split: option.splits)
  show ?case using Cons.IH[OF s1(2)] step_decreases[OF s1(1)] by simp
qed

lemma steps_left_init: "steps_left RaceEngineer_init = 29"
  by (simp add: steps_left_def RaceEngineer_init_def all_positions_def)

subsection \<open>The invariant of the history\<close>

lemma served_suffix:
  assumes "all_positions = qs @ ps"
  shows "served ps = qs"
proof -
  have "length all_positions = length qs + length ps"
    using assms by (metis length_append)
  then show ?thesis by (simp add: assms)
qed

lemma served_all [simp]: "served all_positions = []" "served [] = all_positions"
  by simp_all

lemma causal_snoc:
  assumes "causal t" and "\<And>p. is_stop_to p e \<Longrightarrow> done_put p \<in> set t"
  shows "causal (t @ [e])"
  unfolding causal_def
proof (intro allI impI)
  fix i p assume i: "i < length (t @ [e])" and st: "is_stop_to p ((t @ [e]) ! i)"
  show "done_put p \<in> set (take i (t @ [e]))"
  proof (cases "i < length t")
    case True
    then show ?thesis using assms(1) st by (auto simp: causal_def nth_append)
  next
    case False
    then have "i = length t" using i by simp
    then show ?thesis using assms(2) st by simp
  qed
qed

lemma causal_snoc_other: "causal t \<Longrightarrow> \<forall>p. \<not> is_stop_to p e \<Longrightarrow> causal (t @ [e])"
  by (rule causal_snoc) auto

lemma causal_snoc2: "causal t \<Longrightarrow> \<forall>p. \<not> is_stop_to p e \<Longrightarrow> \<forall>p. \<not> is_stop_to p e' \<Longrightarrow> causal (t @ [e, e'])"
  using causal_snoc_other[OF causal_snoc_other, of t e e'] by simp

lemma put_simps [simp]:
  "is_put_of t (work_put p) = (t = CHANGE_TIRE)"
  "is_put_of t (done_put p) = (t = TIRE_CHANGED)"
  "is_put_of t (stop_put p) = (t = STOP)"
  "is_stop_to q (work_put p) = False"
  "is_stop_to q (done_put p) = False"
  "is_stop_to q (stop_put p) = (q = p)"
  by (auto simp: work_put_def done_put_def stop_put_def Message2_def Message3_def)

lemma trace_inv_init: "trace_inv RaceEngineer_init"
  by (simp add: trace_inv_def RaceEngineer_init_def causal_def UNIV_Position)

lemma pending_empty_log:
  "trace (perform Engineer (if P then [Log l] else []) s) = trace s @ (if P then [(Engineer, Log l)] else [])"
  by (simp add: emit_def)

lemma trace_inv_main_step:
  assumes i: "cycle_inv s" and t: "trace_inv s" and st: "main_step s = Some s'"
  shows "trace_inv s'"
proof (cases "main_task s")
  case Entering
  then show ?thesis using t st
    by (auto simp: main_step_entering trace_inv_def causal_snoc_other)
next
  case (Dispatching ps)
  show ?thesis
  proof (cases ps)
    case Nil
    then show ?thesis using t st Dispatching
      by (auto simp: main_step_dispatched trace_inv_def)
  next
    case (Cons q ps')
    obtain qs where qs: "all_positions = qs @ q # ps'"
      using t Dispatching Cons by (auto simp: trace_inv_def)
    have sv: "served (q # ps') = qs" "served ps' = qs @ [q]"
      using served_suffix[of qs "q # ps'"] served_suffix[of "qs @ [q]" ps'] qs by simp_all
    have e: "(Engineer, Put (CrewMailbox q) (task_msg q)) = work_put q"
      by (simp add: work_put_def task_msg_def)
    have s': "s' = s\<lparr>trace := trace s @ [work_put q],
                         crew_mailbox := (crew_mailbox s)(q := crew_mailbox s q @ [task_msg q]),
                         main_task := Dispatching ps'\<rparr>"
      using st Dispatching Cons by (simp add: main_step_dispatch e)
    have tq: "todo (main_task s') = ps'" by (simp add: s')
    have "\<exists>qs'. all_positions = qs' @ ps'" using qs by (intro exI[of _ "qs @ [q]"]) simp
    then show ?thesis using t Dispatching Cons sv
      unfolding trace_inv_def tq
      by (simp add: s' causal_snoc_other del: served.simps)
  qed
next
  case Aggregating
  show ?thesis
  proof (cases "pending_changes s = {}")
    case True
    then show ?thesis using t st Aggregating
      by (auto simp: main_step_all_done trace_inv_def)
  next
    case False
    then obtain msg rest where mb: "engineer_mailbox s = msg # rest"
      using st Aggregating by (cases "engineer_mailbox s") (simp_all add: main_step_wait)
    obtain q where q: "msg = signal q" "q \<in> pending_changes s"
      using cycle_invD(2)[OF i] mb by auto
    have s': "s' = perform Engineer
        (if pending_changes s - {q} = {} then [Log ''All tire changes complete - Car clear to exit''] else [])
        (s\<lparr>engineer_mailbox := rest, pending_changes := pending_changes s - {q}\<rparr>)"
      using st Aggregating False mb q by (simp add: main_step_receive engineer_receive_signal)
    have f: "engineer_mailbox s' = rest" "pending_changes s' = pending_changes s - {q}"
      "main_task s' = Aggregating"
      "trace s' = trace s @ (if pending_changes s - {q} = {} then [(Engineer, Log ''All tire changes complete - Car clear to exit'')] else [])"
      using Aggregating by (simp_all add: s' emit_def)
    show ?thesis using t Aggregating mb q
      unfolding trace_inv_def f
      by (auto simp: causal_snoc_other)
  qed
next
  case (Stopping ps)
  show ?thesis
  proof (cases ps)
    case Nil
    then show ?thesis using t st Stopping
      by (auto simp: main_step_stopped trace_inv_def)
  next
    case (Cons q ps')
    obtain qs where qs: "all_positions = qs @ q # ps'"
      using t Stopping Cons by (auto simp: trace_inv_def)
    have sv: "served (q # ps') = qs" "served ps' = qs @ [q]"
      using served_suffix[of qs "q # ps'"] served_suffix[of "qs @ [q]" ps'] qs by simp_all
    have e: "(Engineer, Put (CrewMailbox q) stop_msg) = stop_put q"
      by (simp add: stop_put_def stop_msg_def)
    have "q \<notin> pending_changes s"
      using cycle_invD(4)[OF i, of q] Stopping Cons by (simp add: stage_ok_def)
    then have dq: "done_put q \<in> set (trace s)" using t by (simp add: trace_inv_def)
    have c: "causal (trace s @ [stop_put q])"
      using t dq by (auto intro!: causal_snoc simp: trace_inv_def)
    have s': "s' = s\<lparr>trace := trace s @ [stop_put q],
                         crew_mailbox := (crew_mailbox s)(q := crew_mailbox s q @ [stop_msg]),
                         main_task := Stopping ps'\<rparr>"
      using st Stopping Cons by (simp add: main_step_stop e)
    have tq: "todo (main_task s') = ps'" by (simp add: s')
    have "\<exists>qs'. all_positions = qs' @ ps'" using qs by (intro exI[of _ "qs @ [q]"]) simp
    then show ?thesis using t Stopping Cons sv c dq
      unfolding trace_inv_def tq
      by (simp add: s' del: served.simps)
  qed
next
  case Gathering
  have "\<forall>e. main_task s' \<noteq> MainFailed e"
    using cycle_invD(4)[OF inv_main_step[OF i st]] by (auto simp: stage_ok_def)
  then show ?thesis using t st Gathering
    by (auto simp: main_step_def trace_inv_def split: option.splits sum.splits)
qed (use st in \<open>simp_all add: main_step_def\<close>)

lemma crew_step_cases:
  assumes i: "cycle_inv s" and st: "crew_step q s = Some s'"
  obtains
    (queued) "in_stage Queued s q" and
      "s' = s\<lparr>crew_mailbox := (crew_mailbox s)(q := []),
         trace := trace s @ [(Crew q, Log (''Starting tire change at '' @ position_value q)), (Crew q, Sleep 1)],
         crew_task := (crew_task s)(q := Asleep (task_msg q))\<rparr>"
  | (working) "in_stage Working s q" and
      "s' = s\<lparr>trace := trace s @ [(Crew q, Log (''Completed tire change at '' @ position_value q)), done_put q],
         engineer_mailbox := engineer_mailbox s @ [signal q],
         crew_task := (crew_task s)(q := AtGet)\<rparr>"
  | (stopq) "in_stage StopQueued s q" and
      "s' = s\<lparr>crew_mailbox := (crew_mailbox s)(q := []),
                crew_task := (crew_task s)(q := CrewDone)\<rparr>"
proof -
  have ne: "main_task s \<noteq> Entering"
    using cycle_invD(4)[OF i, of q] st by (auto simp: stage_ok_def crew_step_def)
  consider (a) "in_stage Queued s q" | (b) "in_stage Working s q" | (c) "in_stage StopQueued s q"
    using cycle_invD(4)[OF i, of q] st ne
    by (cases "main_task s") (auto simp: stage_ok_def crew_step_def split: if_splits)
  then show ?thesis
  proof cases
    case a
    then show ?thesis using st queued
      by (simp add: crew_step_work[where msg="task_msg q" and rest="[]"])
  next
    case b
    then show ?thesis using st working
      by (simp add: crew_step_wake_engineer[where m="task_msg q"] done_put_def signal_def)
  next
    case c
    then show ?thesis using st stopq
      by (simp add: crew_step_stop[where msg="stop_msg" and rest="[]"])
  qed
qed

lemma trace_inv_crew_step:
  assumes i: "cycle_inv s" and t: "trace_inv s" and st: "crew_step q s = Some s'"
  shows "trace_inv s'"
  using i st
proof (cases rule: crew_step_cases)
  case queued
  have "causal (trace s @ [(Crew q, Log (''Starting tire change at '' @ position_value q)), (Crew q, Sleep 1)])"
    using t by (intro causal_snoc2) (simp_all add: trace_inv_def)
  then show ?thesis using t unfolding trace_inv_def by (simp add: queued(2))
next
  case working
  have "causal (trace s @ [(Crew q, Log (''Completed tire change at '' @ position_value q)), done_put q])"
    using t by (intro causal_snoc2) (simp_all add: trace_inv_def)
  then show ?thesis using t unfolding trace_inv_def by (auto simp add: working(2))
next
  case stopq
  then show ?thesis using t unfolding trace_inv_def by (simp add: stopq(2))
qed

lemma good_step: "good s \<Longrightarrow> step a s = Some s' \<Longrightarrow> good s'"
  unfolding good_def
  by (cases a) (auto intro: inv_main_step inv_crew_step trace_inv_main_step trace_inv_crew_step)

lemma good_run_schedule: "good s \<Longrightarrow> run_schedule sched s = Some s' \<Longrightarrow> good s'"
  by (induction sched arbitrary: s) (auto split: option.splits dest: good_step)

lemma good_reachable: "run_schedule sched RaceEngineer_init = Some s \<Longrightarrow> good s"
  by (rule good_run_schedule[of RaceEngineer_init]) (simp_all add: good_def inv_init trace_inv_init)

lemmas eval_defs = example_schedule_def RaceEngineer_init_def all_positions_def main_step_def crew_step_def
      crew_receive_def crew_resume_def engineer_receive_def emit_def put_def gather_def
      Message2_def Message3_def List.map_filter_def Let_def insert_Diff_if

subsection \<open>The example schedule\<close>

lemma example_run_fields:
  "\<exists>s. run_schedule example_schedule RaceEngineer_init = Some s \<and>
     main_task s = Finished \<and> pending_changes s = {} \<and> engineer_mailbox s = [] \<and>
     crew_task s FRONT_LEFT = CrewDone \<and> crew_task s FRONT_RIGHT = CrewDone \<and>
     crew_task s REAR_LEFT = CrewDone \<and> crew_task s REAR_RIGHT = CrewDone \<and>
     trace s =
       [(Engineer, Log ''Car entering pit lane''),
        work_put FRONT_LEFT, work_put FRONT_RIGHT, work_put REAR_LEFT, work_put REAR_RIGHT,
        (Crew FRONT_LEFT, Log ''Starting tire change at Front Left''), (Crew FRONT_LEFT, Sleep 1),
        (Crew FRONT_RIGHT, Log ''Starting tire change at Front Right''), (Crew FRONT_RIGHT, Sleep 1),
        (Crew REAR_LEFT, Log ''Starting tire change at Rear Left''), (Crew REAR_LEFT, Sleep 1),
        (Crew REAR_RIGHT, Log ''Starting tire change at Rear Right''), (Crew REAR_RIGHT, Sleep 1),
        (Crew REAR_LEFT, Log ''Completed tire change at Rear Left''), done_put REAR_LEFT,
        (Crew FRONT_LEFT, Log ''Completed tire change at Front Left''), done_put FRONT_LEFT,
        (Crew REAR_RIGHT, Log ''Completed tire change at Rear Right''), done_put REAR_RIGHT,
        (Crew FRONT_RIGHT, Log ''Completed tire change at Front Right''), done_put FRONT_RIGHT,
        (Engineer, Log ''All tire changes complete - Car clear to exit''),
        stop_put FRONT_LEFT, stop_put FRONT_RIGHT, stop_put REAR_LEFT, stop_put REAR_RIGHT]"
  by (simp add: eval_defs work_put_def done_put_def stop_put_def)

subsection \<open>The crew member's loop and the engineer's loop\<close>

lemma pending_init: "pending_changes RaceEngineer_init = {FRONT_LEFT, FRONT_RIGHT, REAR_LEFT, REAR_RIGHT}"
  by (simp add: RaceEngineer_init_def all_positions_def)

lemma signal_eval: "signal p = \<lparr>msg_type = TIRE_CHANGED, position = Some p, sender_mailbox = None\<rparr>"
  by (simp add: signal_def Message2_def)

text \<open>
  C1, as the code behaves. While the aggregation loop runs (the pending set is not
  empty), a completion whose position is no longer pending is not a no-op:
  \<open>set.remove\<close> raises KeyError. The loop ends with that exception, the pending set is
  as it was, nothing is logged; the main task ends with the exception and is never
  resumed, so no stop message is sent. Only once the pending set is empty, when the loop
  has returned, does such a message have no effect: it stays unread in the mailbox.
\<close>

theorem duplicate_completion_raises:
  assumes "pending \<noteq> {}" and "is_signal_of p msg" and "p \<notin> pending"
  shows "RaceEngineer_run pending (msg # mailbox) = ([], EngineerRaised KeyError pending) \<and>
         (main_task s = Aggregating \<and> pending_changes s = pending \<and>
          engineer_mailbox s = msg # mailbox \<longrightarrow>
            main_step s = Some (s\<lparr>engineer_mailbox := mailbox, main_task := MainFailed KeyError\<rparr>) \<and>
            main_step (s\<lparr>engineer_mailbox := mailbox, main_task := MainFailed KeyError\<rparr>) = None) \<and>
         RaceEngineer_run {} (msg # mailbox) = ([], Returned {} (msg # mailbox))"
proof -
  have r: "engineer_receive pending msg = Inl KeyError"
    using assms by (simp add: engineer_receive_def is_signal_of_def)
  show ?thesis using assms(1) r by (auto simp: main_step_receive main_step_def)
qed

text \<open>
  With rear left already removed, a second completion for rear left raises.
\<close>

theorem duplicate_completion_raises_witness:
  "RaceEngineer_run {FRONT_LEFT, FRONT_RIGHT, REAR_RIGHT} [signal REAR_LEFT, signal FRONT_LEFT] =
     ([], EngineerRaised KeyError {FRONT_LEFT, FRONT_RIGHT, REAR_RIGHT})"
proof -
  have "{FRONT_LEFT, FRONT_RIGHT, REAR_RIGHT} \<noteq> {}" "is_signal_of REAR_LEFT (signal REAR_LEFT)"
    "REAR_LEFT \<notin> {FRONT_LEFT, FRONT_RIGHT, REAR_RIGHT}"
    by (simp_all add: is_signal_of_def)
  from duplicate_completion_raises[OF this, of "[signal FRONT_LEFT]"]
  show ?thesis by simp
qed

text \<open>
  C1 as stated fails: with the four positions pending, the arrivals rear left, rear left,
  front left, rear right, front right end the loop with KeyError at the duplicate, while
  the same arrivals without the duplicate let it return.
\<close>

theorem duplicate_completion_counterexample:
  "snd (RaceEngineer_run (pending_changes RaceEngineer_init)
          [signal REAR_LEFT, signal REAR_LEFT, signal FRONT_LEFT, signal REAR_RIGHT, signal FRONT_RIGHT]) =
     EngineerRaised KeyError {FRONT_LEFT, FRONT_RIGHT, REAR_RIGHT} \<and>
   snd (RaceEngineer_run (pending_changes RaceEngineer_init)
          [signal REAR_LEFT, signal FRONT_LEFT, signal REAR_RIGHT, signal FRONT_RIGHT]) =
     Returned {} []"
  by (simp add: pending_init signal_eval engineer_receive_def insert_Diff_if)

text \<open>
  C5. A stop message makes the crew member leave its loop, with no effect and the rest of
  the mailbox unread. A work message that names a reply channel makes it log the start,
  sleep, log the completion and send one completion message carrying its own position to
  that channel, after which the loop goes on with the next message; no other send occurs.
  When the reply channel is the crew member's own mailbox, the completion is queued
  there behind the messages already waiting.
\<close>

theorem crew_handles_message:
  "(msg_type msg = STOP \<longrightarrow> PitCrewMember_run p (msg # mailbox) = ([], Exited mailbox)) \<and>
   (msg_type msg = CHANGE_TIRE \<and> sender_mailbox msg = Some q \<longrightarrow>
      PitCrewMember_run p (msg # mailbox) =
        ([Log (''Starting tire change at '' @ position_value p), Sleep 1,
          Log (''Completed tire change at '' @ position_value p),
          Put q (Message2 TIRE_CHANGED (Some p))] @
         fst (PitCrewMember_run p
                (if q = CrewMailbox p then mailbox @ [Message2 TIRE_CHANGED (Some p)] else mailbox)),
         snd (PitCrewMember_run p
                (if q = CrewMailbox p then mailbox @ [Message2 TIRE_CHANGED (Some p)] else mailbox))))"
  by (simp add: crew_receive_def crew_resume_def case_prod_beta)

text \<open>
  The crew member at rear left, on a stop message, on the engineer's work message, and on
  a work message whose reply channel is its own mailbox: its completion is then left
  unread behind the stop.
\<close>

theorem crew_handles_message_witness:
  "PitCrewMember_run REAR_LEFT [Message2 STOP None, task_msg REAR_LEFT] = ([], Exited [task_msg REAR_LEFT]) \<and>
   PitCrewMember_run REAR_LEFT [task_msg REAR_LEFT] =
     ([Log ''Starting tire change at Rear Left'', Sleep 1,
       Log ''Completed tire change at Rear Left'',
       Put EngineerMailbox (Message2 TIRE_CHANGED (Some REAR_LEFT))], CrewWaiting) \<and>
   PitCrewMember_run REAR_LEFT
       [Message3 CHANGE_TIRE (Some REAR_LEFT) (Some (CrewMailbox REAR_LEFT)), Message2 STOP None] =
     ([Log ''Starting tire change at Rear Left'', Sleep 1,
       Log ''Completed tire change at Rear Left'',
       Put (CrewMailbox REAR_LEFT) (Message2 TIRE_CHANGED (Some REAR_LEFT))],
      Exited [Message2 TIRE_CHANGED (Some REAR_LEFT)])"
proof -
  have s: "PitCrewMember_run REAR_LEFT [Message2 STOP None, Message2 TIRE_CHANGED (Some REAR_LEFT)] =
      ([], Exited [Message2 TIRE_CHANGED (Some REAR_LEFT)])"
    using crew_handles_message[of "Message2 STOP None" REAR_LEFT "[Message2 TIRE_CHANGED (Some REAR_LEFT)]" EngineerMailbox]
    by (simp add: Message2_def)
  show ?thesis
    using crew_handles_message[of "Message2 STOP None" REAR_LEFT "[task_msg REAR_LEFT]" EngineerMailbox]
      crew_handles_message[of "task_msg REAR_LEFT" REAR_LEFT "[]" EngineerMailbox]
      crew_handles_message[of "Message3 CHANGE_TIRE (Some REAR_LEFT) (Some (CrewMailbox REAR_LEFT))"
        REAR_LEFT "[Message2 STOP None]" "CrewMailbox REAR_LEFT"] s
    by (simp add: Message2_def Message3_def)
qed

text \<open>
  C8. A message built without a third argument has no reply channel. For a work message
  the reply step succeeds exactly when a reply channel is present; without one the crew
  member logs, sleeps, logs and then fails with AttributeError.
\<close>

theorem reply_channel_required:
  "sender_mailbox (Message2 t pos) = None \<and>
   (msg_type msg = CHANGE_TIRE \<longrightarrow>
      (snd (crew_resume p msg) = None) = (sender_mailbox msg \<noteq> None) \<and>
      (sender_mailbox msg = None \<longrightarrow>
         PitCrewMember_run p (msg # mailbox) =
           ([Log (''Starting tire change at '' @ position_value p), Sleep 1,
             Log (''Completed tire change at '' @ position_value p)],
            CrewRaised AttributeError)))"
  by (auto simp add: crew_receive_def crew_resume_def Message2_def split: option.splits)

text \<open>
  A work message built with two arguments makes the crew member at front left fail.
\<close>

theorem reply_channel_required_witness:
  "PitCrewMember_run FRONT_LEFT [Message2 CHANGE_TIRE (Some FRONT_LEFT), Message2 STOP None] =
     ([Log ''Starting tire change at Front Left'', Sleep 1,
       Log ''Completed tire change at Front Left''], CrewRaised AttributeError)"
  using reply_channel_required[of CHANGE_TIRE "Some FRONT_LEFT" "Message2 CHANGE_TIRE (Some FRONT_LEFT)"
      FRONT_LEFT "[Message2 STOP None]"]
  by (simp add: Message2_def)

text \<open>
  C9. In the aggregation loop a message whose type is not TIRE_CHANGED is taken from the
  mailbox and dropped: the pending set is unchanged, nothing is logged, and the loop goes
  on with the rest of the mailbox. In the event loop the main task stays in
  \<open>self.run()\<close> and only the mailbox changes.
\<close>

theorem engineer_discards_other_messages:
  assumes "pending \<noteq> {}" and "msg_type msg \<noteq> TIRE_CHANGED"
  shows "engineer_receive pending msg = Inr (pending, []) \<and>
         RaceEngineer_run pending (msg # mailbox) = RaceEngineer_run pending mailbox \<and>
         (main_task s = Aggregating \<and> pending_changes s = pending \<and>
          engineer_mailbox s = msg # mailbox \<longrightarrow>
            main_step s = Some (s\<lparr>engineer_mailbox := mailbox\<rparr>))"
  using assms by (auto simp add: engineer_receive_def main_step_def)

text \<open>
  A stop message in the engineer's mailbox changes nothing.
\<close>

theorem engineer_discards_other_messages_witness:
  "RaceEngineer_run {FRONT_LEFT, REAR_LEFT} [stop_msg, signal REAR_LEFT] =
     RaceEngineer_run {FRONT_LEFT, REAR_LEFT} [signal REAR_LEFT] \<and>
   snd (RaceEngineer_run {FRONT_LEFT, REAR_LEFT} [stop_msg, signal REAR_LEFT]) =
     EngineerWaiting {FRONT_LEFT}"
proof -
  have h: "{FRONT_LEFT, REAR_LEFT} \<noteq> {}" "msg_type stop_msg \<noteq> TIRE_CHANGED" by simp_all
  have "snd (RaceEngineer_run {FRONT_LEFT, REAR_LEFT} [signal REAR_LEFT]) = EngineerWaiting {FRONT_LEFT}"
    by (simp add: signal_eval engineer_receive_def insert_Diff_if)
  then show ?thesis
    using engineer_discards_other_messages[OF h, of "[signal REAR_LEFT]"] by simp
qed

text \<open>
  C10. A message that is neither a stop nor a work message is dropped by a crew member:
  no effect, no reply, and the loop goes on with the next message. In the event loop the
  only change is that the message has left the mailbox.
\<close>

theorem crew_discards_other_messages:
  assumes "msg_type msg \<noteq> STOP" and "msg_type msg \<noteq> CHANGE_TIRE"
  shows "crew_receive p msg = ([], Continue) \<and>
         PitCrewMember_run p (msg # mailbox) = PitCrewMember_run p mailbox \<and>
         (crew_task s p = AtGet \<and> crew_mailbox s p = msg # mailbox \<longrightarrow>
            crew_step p s = Some (s\<lparr>crew_mailbox := (crew_mailbox s)(p := mailbox)\<rparr>))"
proof -
  have t: "msg_type msg = TIRE_CHANGED" using assms by (cases "msg_type msg") simp_all
  have "crew_step p s = Some (s\<lparr>crew_mailbox := (crew_mailbox s)(p := mailbox)\<rparr>)"
    if h: "crew_task s p = AtGet" "crew_mailbox s p = msg # mailbox"
  proof -
    have "(crew_task s)(p := AtGet) = crew_task s" using h(1) by auto
    then show ?thesis using crew_step_other[OF h t] by simp
  qed
  then show ?thesis using assms by (simp add: crew_receive_def)
qed

text \<open>
  A completion message in a crew member's mailbox is skipped; the stop behind it is seen.
\<close>

theorem crew_discards_other_messages_witness:
  "PitCrewMember_run FRONT_RIGHT [signal REAR_LEFT, stop_msg] = ([], Exited [])"
proof -
  have h: "msg_type (signal REAR_LEFT) \<noteq> STOP" "msg_type (signal REAR_LEFT) \<noteq> CHANGE_TIRE" by simp_all
  show ?thesis
    using crew_discards_other_messages[OF h, of FRONT_RIGHT "[stop_msg]"]
    by (simp add: crew_receive_def)
qed

text \<open>
  C6. For every arrival order \<open>ps\<close> of the completions of the four positions: after the
  first \<open>k\<close> arrivals the pending set is the full set without the first \<open>k\<close> positions of
  \<open>ps\<close>, so each arrival removes exactly its own position; the loop is still waiting
  for every \<open>k\<close> below four and has returned, with the empty set and nothing left
  unread, exactly at \<open>k = 4\<close>.
\<close>

theorem pending_set_shrinks_in_arrival_order:
  assumes "distinct ps" and "set ps = pending_changes RaceEngineer_init"
  shows "\<forall>k \<le> length ps.
           snd (RaceEngineer_run (pending_changes RaceEngineer_init) (map signal (take k ps))) =
             (if k = length ps then Returned {} []
              else EngineerWaiting (pending_changes RaceEngineer_init - set (take k ps)))"
proof (intro allI impI)
  fix k assume k: "k \<le> length ps"
  let ?P = "pending_changes RaceEngineer_init"
  have d: "distinct (take k ps)" using assms(1) by simp
  have s: "set (take k ps) \<subseteq> ?P" using assms(2) by (auto dest: in_set_takeD)
  have "(set (take k ps) = ?P) = (k = length ps)"
  proof
    assume e: "set (take k ps) = ?P"
    have "card (set (take k ps)) = k" using d k by (simp add: distinct_card)
    moreover have "card (set ps) = length ps" using assms(1) by (simp add: distinct_card)
    ultimately show "k = length ps" using e assms(2) by simp
  next
    assume "k = length ps" then show "set (take k ps) = ?P" using assms(2) by simp
  qed
  then show "snd (RaceEngineer_run ?P (map signal (take k ps))) =
             (if k = length ps then Returned {} [] else EngineerWaiting (?P - set (take k ps)))"
    using run_signals[OF d s] by simp
qed

text \<open>
  The arrival order rear left, front left, rear right, front right (3, 1, 4, 2).
\<close>

theorem pending_set_shrinks_in_arrival_order_witness:
  "pending_changes RaceEngineer_init = {FRONT_LEFT, FRONT_RIGHT, REAR_LEFT, REAR_RIGHT} \<and>
   snd (RaceEngineer_run (pending_changes RaceEngineer_init) (map signal [REAR_LEFT])) =
     EngineerWaiting {FRONT_LEFT, FRONT_RIGHT, REAR_RIGHT} \<and>
   snd (RaceEngineer_run (pending_changes RaceEngineer_init) (map signal [REAR_LEFT, FRONT_LEFT])) =
     EngineerWaiting {FRONT_RIGHT, REAR_RIGHT} \<and>
   snd (RaceEngineer_run (pending_changes RaceEngineer_init)
          (map signal [REAR_LEFT, FRONT_LEFT, REAR_RIGHT])) =
     EngineerWaiting {FRONT_RIGHT} \<and>
   snd (RaceEngineer_run (pending_changes RaceEngineer_init)
          (map signal [REAR_LEFT, FRONT_LEFT, REAR_RIGHT, FRONT_RIGHT])) =
     Returned {} []"
proof -
  let ?ps = "[REAR_LEFT, FRONT_LEFT, REAR_RIGHT, FRONT_RIGHT]"
  have h: "distinct ?ps" "set ?ps = pending_changes RaceEngineer_init"
    by (auto simp: pending_init)
  have t: "take 1 ?ps = [REAR_LEFT]" "take 2 ?ps = [REAR_LEFT, FRONT_LEFT]"
    "take 3 ?ps = [REAR_LEFT, FRONT_LEFT, REAR_RIGHT]" "take 4 ?ps = ?ps"
    by (simp_all add: numeral_2_eq_2 numeral_3_eq_3 eval_nat_numeral)
  note a = pending_set_shrinks_in_arrival_order[OF h, rule_format]
  have "snd (RaceEngineer_run (pending_changes RaceEngineer_init) (map signal (take 1 ?ps))) =
      EngineerWaiting (pending_changes RaceEngineer_init - set (take 1 ?ps))"
    using a[of 1] by simp
  moreover have "snd (RaceEngineer_run (pending_changes RaceEngineer_init) (map signal (take 2 ?ps))) =
      EngineerWaiting (pending_changes RaceEngineer_init - set (take 2 ?ps))"
    using a[of 2] by simp
  moreover have "snd (RaceEngineer_run (pending_changes RaceEngineer_init) (map signal (take 3 ?ps))) =
      EngineerWaiting (pending_changes RaceEngineer_init - set (take 3 ?ps))"
    using a[of 3] by simp
  moreover have "snd (RaceEngineer_run (pending_changes RaceEngineer_init) (map signal (take 4 ?ps))) =
      Returned {} []"
    using a[of 4] by simp
  ultimately show ?thesis
    unfolding t by (simp add: pending_init insert_Diff_if)
qed

text \<open>
  C7. If position \<open>p\<close> is pending and no completion for \<open>p\<close> is among the messages that
  arrive, then after any number of arrivals the loop has not returned and \<open>p\<close> is still
  pending, so the statements after \<open>self.run()\<close>, which send the stop messages, are never
  reached. When the arrivals are completions of other pending positions, each at most
  once, the loop is suspended in \<open>mailbox.get()\<close> for good.
\<close>

theorem missing_completion_stalls_engineer:
  assumes "p \<in> pending" and "\<forall>m \<in> set msgs. \<not> is_signal_of p m"
  shows "(\<forall>k \<le> length msgs.
            \<not> returned (snd (RaceEngineer_run pending (take k msgs))) \<and>
            p \<in> pending_at_end (snd (RaceEngineer_run pending (take k msgs)))) \<and>
         (\<forall>ps. msgs = map signal ps \<and> distinct ps \<and> set ps \<subseteq> pending \<longrightarrow>
            snd (RaceEngineer_run pending msgs) = EngineerWaiting (pending - set ps))"
proof (intro conjI allI impI)
  fix k assume "k \<le> length msgs"
  have "\<forall>m \<in> set (take k msgs). \<not> is_signal_of p m"
    using assms(2) by (auto dest: in_set_takeD)
  from never_returns[OF assms(1) this]
  show "\<not> returned (snd (RaceEngineer_run pending (take k msgs)))"
    and "p \<in> pending_at_end (snd (RaceEngineer_run pending (take k msgs)))" by simp_all
next
  fix ps assume h: "msgs = map signal ps \<and> distinct ps \<and> set ps \<subseteq> pending"
  have "p \<notin> set ps" using assms(2) h by (auto simp: is_signal_of_def)
  then have "set ps \<noteq> pending" using assms(1) by auto
  then show "snd (RaceEngineer_run pending msgs) = EngineerWaiting (pending - set ps)"
    using run_signals[of ps pending] h by simp
qed

text \<open>
  Three completions arrive and front right never reports.
\<close>

theorem missing_completion_stalls_engineer_witness:
  "snd (RaceEngineer_run (pending_changes RaceEngineer_init)
          (map signal [REAR_LEFT, FRONT_LEFT, REAR_RIGHT])) = EngineerWaiting {FRONT_RIGHT}"
proof -
  let ?ps = "[REAR_LEFT, FRONT_LEFT, REAR_RIGHT]"
  have h: "FRONT_RIGHT \<in> pending_changes RaceEngineer_init"
    "\<forall>m \<in> set (map signal ?ps). \<not> is_signal_of FRONT_RIGHT m"
    by (simp_all add: pending_init is_signal_of_def)
  have "map signal ?ps = map signal ?ps \<and> distinct ?ps \<and> set ?ps \<subseteq> pending_changes RaceEngineer_init"
    by (simp add: pending_init)
  with missing_completion_stalls_engineer[OF h]
  have "snd (RaceEngineer_run (pending_changes RaceEngineer_init) (map signal ?ps)) =
          EngineerWaiting (pending_changes RaceEngineer_init - set ?ps)"
    by blast
  then show ?thesis by (simp add: pending_init insert_Diff_if)
qed

subsection \<open>The whole cycle\<close>

lemma pending_full:
  assumes i: "cycle_inv s" and d: "dispatched (main_task s) \<noteq> all_positions"
  shows "pending_changes s = set all_positions"
proof -
  have "p \<in> pending_changes s" for p
    using cycle_invD(4)[OF i, of p] d
    by (cases "main_task s") (auto simp: stage_ok_def split: if_splits)
  then show ?thesis by (auto simp: UNIV_Position)
qed

lemma pending_empty:
  assumes i: "cycle_inv s" and t: "trace_inv s"
    and d: "(\<exists>e \<in> set (trace s). is_put_of STOP e) \<or> (\<exists>ps. main_task s = Stopping ps) \<or> main_task s = Gathering \<or> main_task s = Finished"
  shows "pending_changes s = {}"
proof -
  have f: "filter (is_put_of STOP) (trace s) = map stop_put (stopped (main_task s))"
    using t by (simp add: trace_inv_def)
  have "(\<exists>ps. main_task s = Stopping ps) \<or> main_task s = Gathering \<or> main_task s = Finished"
  proof (cases "\<exists>e \<in> set (trace s). is_put_of STOP e")
    case True
    then have "filter (is_put_of STOP) (trace s) \<noteq> []" by (auto simp: filter_empty_conv)
    then have "stopped (main_task s) \<noteq> []" using f by auto
    then show ?thesis by (cases "main_task s") simp_all
  next
    case False then show ?thesis using d by blast
  qed
  then have "p \<notin> pending_changes s" for p
    using cycle_invD(4)[OF i, of p]
    by (cases "main_task s") (auto simp: stage_ok_def split: if_splits)
  then show ?thesis by auto
qed

lemma example_final_fields:
  "run_schedule example_schedule RaceEngineer_init = Some example_final \<and>
     main_task example_final = Finished \<and> pending_changes example_final = {} \<and>
     crew_task example_final FRONT_LEFT = CrewDone \<and> crew_task example_final FRONT_RIGHT = CrewDone \<and>
     crew_task example_final REAR_LEFT = CrewDone \<and> crew_task example_final REAR_RIGHT = CrewDone \<and>
     trace example_final =
       [(Engineer, Log ''Car entering pit lane''),
        work_put FRONT_LEFT, work_put FRONT_RIGHT, work_put REAR_LEFT, work_put REAR_RIGHT,
        (Crew FRONT_LEFT, Log ''Starting tire change at Front Left''), (Crew FRONT_LEFT, Sleep 1),
        (Crew FRONT_RIGHT, Log ''Starting tire change at Front Right''), (Crew FRONT_RIGHT, Sleep 1),
        (Crew REAR_LEFT, Log ''Starting tire change at Rear Left''), (Crew REAR_LEFT, Sleep 1),
        (Crew REAR_RIGHT, Log ''Starting tire change at Rear Right''), (Crew REAR_RIGHT, Sleep 1),
        (Crew REAR_LEFT, Log ''Completed tire change at Rear Left''), done_put REAR_LEFT,
        (Crew FRONT_LEFT, Log ''Completed tire change at Front Left''), done_put FRONT_LEFT,
        (Crew REAR_RIGHT, Log ''Completed tire change at Rear Right''), done_put REAR_RIGHT,
        (Crew FRONT_RIGHT, Log ''Completed tire change at Front Right''), done_put FRONT_RIGHT,
        (Engineer, Log ''All tire changes complete - Car clear to exit''),
        stop_put FRONT_LEFT, stop_put FRONT_RIGHT, stop_put REAR_LEFT, stop_put REAR_RIGHT]"
proof -
  obtain s where s: "run_schedule example_schedule RaceEngineer_init = Some s"
    using example_run_fields by blast
  then have "example_final = s" by (simp add: example_final_def)
  then show ?thesis using example_run_fields s by auto
qed

lemma dispatch_final_fields:
  "run_schedule dispatch_schedule RaceEngineer_init = Some dispatch_final \<and>
   main_task dispatch_final = Aggregating \<and>
   crew_mailbox dispatch_final FRONT_LEFT = [task_msg FRONT_LEFT] \<and>
   crew_mailbox dispatch_final FRONT_RIGHT = [task_msg FRONT_RIGHT] \<and>
   crew_mailbox dispatch_final REAR_LEFT = [task_msg REAR_LEFT] \<and>
   crew_mailbox dispatch_final REAR_RIGHT = [task_msg REAR_RIGHT] \<and>
   crew_task dispatch_final FRONT_LEFT = AtGet \<and> crew_task dispatch_final FRONT_RIGHT = AtGet \<and>
   crew_task dispatch_final REAR_LEFT = AtGet \<and> crew_task dispatch_final REAR_RIGHT = AtGet \<and>
   engineer_mailbox dispatch_final = []"
proof -
  have "\<exists>s. run_schedule dispatch_schedule RaceEngineer_init = Some s \<and> main_task s = Aggregating \<and>
     crew_mailbox s FRONT_LEFT = [task_msg FRONT_LEFT] \<and>
     crew_mailbox s FRONT_RIGHT = [task_msg FRONT_RIGHT] \<and>
     crew_mailbox s REAR_LEFT = [task_msg REAR_LEFT] \<and>
     crew_mailbox s REAR_RIGHT = [task_msg REAR_RIGHT] \<and>
     crew_task s FRONT_LEFT = AtGet \<and> crew_task s FRONT_RIGHT = AtGet \<and>
     crew_task s REAR_LEFT = AtGet \<and> crew_task s REAR_RIGHT = AtGet \<and>
     engineer_mailbox s = []"
    by (simp add: dispatch_schedule_def eval_defs task_msg_def)
  then show ?thesis by (auto simp: dispatch_final_def)
qed

lemma served_membership:
  assumes "all_positions = qs @ ps"
  shows "(p \<in> set qs) = (p \<notin> set ps)"
proof -
  have "distinct (qs @ ps)" using distinct_all_positions assms by simp
  moreover have "p \<in> set (qs @ ps)" using UNIV_Position assms by (metis UNIV_I)
  ultimately show ?thesis by auto
qed

lemma work_message_delivered:
  assumes i: "cycle_inv s" and t: "trace_inv s"
  shows "if p \<in> set (dispatched (main_task s))
         then (crew_task s p = AtGet \<and> crew_mailbox s p = [task_msg p]) \<or>
              (crew_task s p = Asleep (task_msg p) \<and> crew_mailbox s p = []) \<or>
              done_put p \<in> set (trace s)
         else crew_mailbox s p = [] \<and> (crew_task s p = NotCreated \<or> crew_task s p = AtGet)"
proof -
  have d: "done_put p \<in> set (trace s)"
    if "signal p \<in> set (engineer_mailbox s) \<or> p \<notin> pending_changes s"
    using t that by (auto simp: trace_inv_def)
  show ?thesis
  proof (cases "main_task s")
    case Entering
    then show ?thesis using cycle_invD(4)[OF i, of p] by (simp add: stage_ok_def)
  next
    case (Dispatching ps)
    obtain qs where qs: "all_positions = qs @ ps"
      using t Dispatching by (auto simp: trace_inv_def)
    have sv: "dispatched (main_task s) = qs"
      using served_suffix[OF qs] Dispatching by simp
    show ?thesis
      unfolding sv served_membership[OF qs]
      using cycle_invD(4)[OF i, of p] d Dispatching
      by (auto simp: stage_ok_def split: if_splits)
  next
    case (MainFailed e)
    then show ?thesis using cycle_invD(4)[OF i, of p] by (simp add: stage_ok_def)
  qed (use cycle_invD(4)[OF i, of p] d in \<open>auto simp: stage_ok_def UNIV_Position split: if_splits\<close>)
qed

text \<open>
  C4. In every state the cycle can reach, the work messages sent so far are those of the
  positions already served by the first loop, one each, in order, each put into the
  mailbox of its position with the engineer's mailbox as reply channel. Once the main
  task is in \<open>self.run()\<close> that is one per position of the pool; and as long as one is
  missing the pending set is still full, the engineer having taken no message yet. The
  message of a served position has reached its crew member: it is the one message in
  that mailbox, or the crew member is at work on it, or has sent its completion for it.
  The mailbox of a position not yet served is empty.
\<close>

theorem dispatch_is_scatter:
  assumes "run_schedule sched RaceEngineer_init = Some s"
  shows "filter (is_put_of CHANGE_TIRE) (trace s) = map work_put (dispatched (main_task s)) \<and>
         (main_task s = Aggregating \<longrightarrow>
            filter (is_put_of CHANGE_TIRE) (trace s) = map work_put all_positions) \<and>
         (dispatched (main_task s) \<noteq> all_positions \<longrightarrow>
            pending_changes s = set all_positions) \<and>
         (\<forall>p. if p \<in> set (dispatched (main_task s))
              then (crew_task s p = AtGet \<and> crew_mailbox s p = [task_msg p]) \<or>
                   (crew_task s p = Asleep (task_msg p) \<and> crew_mailbox s p = []) \<or>
                   done_put p \<in> set (trace s)
              else crew_mailbox s p = [] \<and>
                   (crew_task s p = NotCreated \<or> crew_task s p = AtGet))"
proof -
  have g: "cycle_inv s" "trace_inv s" using good_reachable[OF assms] by (simp_all add: good_def)
  have f: "filter (is_put_of CHANGE_TIRE) (trace s) = map work_put (dispatched (main_task s))"
    using g(2) by (simp add: trace_inv_def)
  have h: "\<forall>p. if p \<in> set (dispatched (main_task s))
              then (crew_task s p = AtGet \<and> crew_mailbox s p = [task_msg p]) \<or>
                   (crew_task s p = Asleep (task_msg p) \<and> crew_mailbox s p = []) \<or>
                   done_put p \<in> set (trace s)
              else crew_mailbox s p = [] \<and>
                   (crew_task s p = NotCreated \<or> crew_task s p = AtGet)"
    using work_message_delivered[OF g] by blast
  have a: "main_task s = Aggregating \<longrightarrow>
            filter (is_put_of CHANGE_TIRE) (trace s) = map work_put all_positions"
    using f by simp
  have b: "dispatched (main_task s) \<noteq> all_positions \<longrightarrow> pending_changes s = set all_positions"
    using pending_full[OF g(1)] by blast
  show ?thesis using f a b h by blast
qed

text \<open>
  When the main task enters \<open>self.run()\<close> the four work messages have been sent and each
  mailbox holds its own.
\<close>

theorem dispatch_is_scatter_witness:
  "main_task dispatch_final = Aggregating \<and>
   filter (is_put_of CHANGE_TIRE) (trace dispatch_final) =
     [work_put FRONT_LEFT, work_put FRONT_RIGHT, work_put REAR_LEFT, work_put REAR_RIGHT] \<and>
   crew_mailbox dispatch_final FRONT_LEFT = [task_msg FRONT_LEFT] \<and>
   crew_mailbox dispatch_final FRONT_RIGHT = [task_msg FRONT_RIGHT] \<and>
   crew_mailbox dispatch_final REAR_LEFT = [task_msg REAR_LEFT] \<and>
   crew_mailbox dispatch_final REAR_RIGHT = [task_msg REAR_RIGHT] \<and>
   engineer_mailbox dispatch_final = []"
  using dispatch_is_scatter[of dispatch_schedule dispatch_final] dispatch_final_fields
  by (simp add: all_positions_def)

text \<open>
  C3. In every state the cycle can reach: each stop message in the history comes after
  the completion sent by the crew member it is addressed to; a crew member that has a
  stop message in its mailbox, or has left its loop, has sent its completion; and once a
  stop message has been sent, or the main task is in its second loop, the pending set is
  empty.
\<close>

theorem stop_only_after_completion:
  assumes "run_schedule sched RaceEngineer_init = Some s"
  shows "causal (trace s) \<and>
         (\<forall>p. (\<exists>m \<in> set (crew_mailbox s p). msg_type m = STOP) \<or> crew_task s p = CrewDone \<longrightarrow>
              done_put p \<in> set (trace s)) \<and>
         ((\<exists>e \<in> set (trace s). is_put_of STOP e) \<or> (\<exists>ps. main_task s = Stopping ps) \<longrightarrow>
            pending_changes s = {})"
proof -
  have g: "cycle_inv s" "trace_inv s" using good_reachable[OF assms] by (simp_all add: good_def)
  have a: "causal (trace s)" using g(2) by (simp add: trace_inv_def)
  have b: "done_put p \<in> set (trace s)"
    if h: "(\<exists>m \<in> set (crew_mailbox s p). msg_type m = STOP) \<or> crew_task s p = CrewDone" for p
  proof -
    have "p \<notin> pending_changes s"
      using cycle_invD(4)[OF g(1), of p] h
      by (cases "main_task s") (auto simp: stage_ok_def split: if_splits)
    then show ?thesis using g(2) by (simp add: trace_inv_def)
  qed
  have c: "pending_changes s = {}"
    if "(\<exists>e \<in> set (trace s). is_put_of STOP e) \<or> (\<exists>ps. main_task s = Stopping ps)"
    using pending_empty[OF g] that by blast
  show ?thesis using a b c by blast
qed

text \<open>
  In the example schedule the stop for front left is entry 22 of the history, after
  front left's completion.
\<close>

theorem stop_only_after_completion_witness:
  "is_stop_to FRONT_LEFT (trace example_final ! 22) \<and>
   done_put FRONT_LEFT \<in> set (take 22 (trace example_final)) \<and>
   pending_changes example_final = {}"
proof -
  have r: "run_schedule example_schedule RaceEngineer_init = Some example_final"
    using example_final_fields by simp
  have st: "is_stop_to FRONT_LEFT (trace example_final ! 22)"
    by (simp add: example_final_fields)
  have "causal (trace example_final)" using stop_only_after_completion[OF r] by simp
  moreover have "22 < length (trace example_final)" by (simp add: example_final_fields)
  ultimately have "done_put FRONT_LEFT \<in> set (take 22 (trace example_final))"
    using st unfolding causal_def by blast
  then show ?thesis using st example_final_fields by simp
qed

text \<open>
  C2, as the code behaves. \<open>coordinate_pit_stop\<close> takes no worker count: the pool is the
  four positions. In every state the cycle can reach, the pending set started with four
  members, the work messages sent are one for each position served so far, the stop
  messages likewise, the pending set is empty once the second loop has begun, and when
  the main task has returned every crew member has left its loop with an empty mailbox.
  The main task never fails. Every schedule has at most 29 resumptions, and a state in
  which no coroutine can continue is one where the main task has returned: every run of
  the cycle ends with its return.
\<close>

theorem pit_stop_cycle:
  assumes "run_schedule sched RaceEngineer_init = Some s"
  shows "card (pending_changes RaceEngineer_init) = length all_positions \<and>
         filter (is_put_of CHANGE_TIRE) (trace s) = map work_put (dispatched (main_task s)) \<and>
         filter (is_put_of STOP) (trace s) = map stop_put (stopped (main_task s)) \<and>
         (stopped (main_task s) \<noteq> [] \<or> (\<exists>ps. main_task s = Stopping ps) \<longrightarrow> pending_changes s = {}) \<and>
         (main_task s = Finished \<longrightarrow>
            (\<forall>p. crew_task s p = CrewDone \<and> crew_mailbox s p = []) \<and> engineer_mailbox s = []) \<and>
         (\<forall>e. main_task s \<noteq> MainFailed e) \<and>
         length sched + steps_left s \<le> 29 \<and>
         ((\<forall>a. step a s = None) \<longrightarrow> main_task s = Finished)"
proof -
  have g: "cycle_inv s" "trace_inv s" using good_reachable[OF assms] by (simp_all add: good_def)
  have a: "card (pending_changes RaceEngineer_init) = length all_positions"
    by (simp add: RaceEngineer_init_def distinct_card distinct_all_positions)
  have b: "filter (is_put_of CHANGE_TIRE) (trace s) = map work_put (dispatched (main_task s))"
    "filter (is_put_of STOP) (trace s) = map stop_put (stopped (main_task s))"
    using g(2) by (simp_all add: trace_inv_def)
  have c: "pending_changes s = {}"
    if h: "stopped (main_task s) \<noteq> [] \<or> (\<exists>ps. main_task s = Stopping ps)"
  proof -
    have "(\<exists>ps. main_task s = Stopping ps) \<or> main_task s = Gathering \<or> main_task s = Finished"
      using h by (cases "main_task s") simp_all
    then show ?thesis using pending_empty[OF g] by blast
  qed
  have d: "(\<forall>p. crew_task s p = CrewDone \<and> crew_mailbox s p = []) \<and> engineer_mailbox s = []"
    if h: "main_task s = Finished"
  proof -
    have "crew_task s p = CrewDone \<and> crew_mailbox s p = []" for p
      using cycle_invD(4)[OF g(1), of p] h by (simp add: stage_ok_def)
    moreover have "pending_changes s = {}" using pending_empty[OF g] h by blast
    then have "engineer_mailbox s = []" using cycle_invD(2)[OF g(1)] by simp
    ultimately show ?thesis by blast
  qed
  have e: "main_task s \<noteq> MainFailed e" for e
    using cycle_invD(4)[OF g(1)] by (auto simp: stage_ok_def)
  have f: "length sched + steps_left s \<le> 29"
    using run_schedule_bound[OF assms] by (simp add: steps_left_init)
  have h: "main_task s = Finished" if "\<forall>a. step a s = None"
    using no_deadlock[OF g(1) that] .
  show ?thesis using a b c d e f h by blast
qed

text \<open>
  The example schedule runs the whole cycle in 29 resumptions.
\<close>

theorem pit_stop_cycle_witness:
  "length example_schedule = 29 \<and> main_task example_final = Finished \<and>
   crew_task example_final FRONT_LEFT = CrewDone \<and> crew_task example_final FRONT_RIGHT = CrewDone \<and>
   crew_task example_final REAR_LEFT = CrewDone \<and> crew_task example_final REAR_RIGHT = CrewDone \<and>
   steps_left example_final = 0 \<and>
   filter (is_put_of CHANGE_TIRE) (trace example_final) =
     [work_put FRONT_LEFT, work_put FRONT_RIGHT, work_put REAR_LEFT, work_put REAR_RIGHT] \<and>
   filter (is_put_of STOP) (trace example_final) =
     [stop_put FRONT_LEFT, stop_put FRONT_RIGHT, stop_put REAR_LEFT, stop_put REAR_RIGHT]"
proof -
  have r: "run_schedule example_schedule RaceEngineer_init = Some example_final"
    using example_final_fields by simp
  have l: "length example_schedule = 29" by (simp add: example_schedule_def)
  show ?thesis using pit_stop_cycle[OF r] l example_final_fields
    by (simp add: all_positions_def)
qed

text \<open>
  C2 as stated fails for a worker count of one: the pending set starts with four
  members and four work messages are sent.
\<close>

theorem pit_stop_cycle_counterexample:
  "card (pending_changes RaceEngineer_init) \<noteq> 1 \<and>
   length (filter (is_put_of CHANGE_TIRE) (trace example_final)) \<noteq> 1"
  by (simp add: example_final_fields pending_init)

end
